theory Spec2Isabelle
  imports Main "HOL-Library.Signed_Division" "HOL-Library.Monad_Syntax"
begin

section \<open>C integer arithmetic\<close>

text \<open>
  Every integer of \<^verbatim>\<open>gol.c\<close> is a C \<^verbatim>\<open>int\<close>, 32 bits wide. The model keeps such a
  value as an \<^typ>\<open>int\<close> and writes the wrap-around out: \<open>int32 x\<close> is what a 32-bit
  two's complement register holds after an operation whose exact result is \<open>x\<close>. (The C
  standard leaves signed overflow undefined; the wrapped value is what the usual compilers
  produce.) C's \<^verbatim>\<open>/\<close> and \<^verbatim>\<open>%\<close> truncate towards zero: they are \<open>sdiv\<close> and
  \<open>smod\<close>.
\<close>

definition INT_MAX :: int where
  "INT_MAX = 2147483647"

definition INT_MIN :: int where
  "INT_MIN = - 2147483648"

definition int32 :: "int \<Rightarrow> int" where
  "int32 x = signed_take_bit 31 x"

section \<open>Data\<close>

text \<open>\<^verbatim>\<open>struct init\<close>: the header of the configuration file.\<close>

record init_data =
  num_rows :: int
  num_cols :: int
  iterations :: int
  init_pairs :: int

text \<open>
  \<^verbatim>\<open>struct threads\<close>. The fields \<^verbatim>\<open>earth\<close>, \<^verbatim>\<open>BARRIER\<close> and \<^verbatim>\<open>bounds\<close> are
  pointers to the one board, barrier and header that all threads share: the model passes
  the board and the header to each function beside the thread's own record. The field
  \<^verbatim>\<open>neighbors\<close> is never read or written.
\<close>

record Threads =
  row_start :: int
  row_end :: int
  print_thread :: int
  tid :: int
  verbose :: int

text \<open>
  The board is a \<^verbatim>\<open>char\<close> buffer, \<^verbatim>\<open>'@'\<close> for a live cell and \<^verbatim>\<open>'-'\<close> for a dead one,
  row-major. A read or write outside a buffer is undefined behaviour in C: it is the
  value \<open>None\<close> of the model.
\<close>

definition rd :: "'a list \<Rightarrow> int \<Rightarrow> 'a option" where
  "rd buf i = (if 0 \<le> i \<and> i < int (length buf) then Some (buf ! nat i) else None)"

definition wr :: "'a list \<Rightarrow> int \<Rightarrow> 'a \<Rightarrow> 'a list option" where
  "wr buf i v = (if 0 \<le> i \<and> i < int (length buf) then Some (buf[nat i := v]) else None)"

section \<open>The row partition (\<^verbatim>\<open>main\<close>, the loop that fills \<^verbatim>\<open>thread_data\<close>)\<close>

text \<open>
  The loop writes \<^verbatim>\<open>thread_data[i]\<close> for \<open>i = 0, 1, \<dots>\<close> in turn, so the array filled so
  far is the list \<open>thread_data\<close> of length \<open>i\<close>, and \<^verbatim>\<open>thread_data[i - 1]\<close> its last
  element. \<open>p_flag\<close> and \<open>vflag\<close> are \<^verbatim>\<open>main\<close>'s \<^verbatim>\<open>p_flag\<close> and \<^verbatim>\<open>verbose\<close>.
\<close>

function init_thread_data ::
  "init_data \<Rightarrow> int \<Rightarrow> int \<Rightarrow> int \<Rightarrow> int \<Rightarrow> Threads list \<Rightarrow> Threads list" where
  "init_thread_data bounds num_threads p_flag vflag i thread_data =
     (if i < num_threads then
        let rs = (if i = 0 then 0 else int32 (row_end (last thread_data) + 1));
            re = (if i < num_rows bounds smod num_threads
                  then int32 (rs + num_rows bounds sdiv num_threads)
                  else int32 (int32 (rs + num_rows bounds sdiv num_threads) - 1))
        in init_thread_data bounds num_threads p_flag vflag (i + 1)
             (thread_data @
              [\<lparr>row_start = rs, row_end = re, print_thread = p_flag, tid = i,
                verbose = (if vflag = 1 \<and> i = 0 then 1 else 0)\<rparr>])
      else thread_data)"
  by pat_completeness auto
termination
  by (relation "measure (\<lambda>(bounds, num_threads, p_flag, vflag, i, thread_data). nat (num_threads - i))")
     auto

text \<open>
  \<^verbatim>\<open>main\<close> refuses a thread count below 1 or above the number of rows (\<^verbatim>\<open>exit(1)\<close>)
  before it fills the array.
\<close>

definition partition_rows :: "init_data \<Rightarrow> int \<Rightarrow> int \<Rightarrow> int \<Rightarrow> Threads list option" where
  "partition_rows bounds num_threads p_flag vflag =
     (if num_threads < 1 \<or> num_threads > num_rows bounds then None
      else Some (init_thread_data bounds num_threads p_flag vflag 0 []))"

section \<open>The partition diagnostic (\<^verbatim>\<open>threadFunc\<close>, after the last generation)\<close>

text \<open>
  What a thread prints: the four \<^verbatim>\<open>%d\<close> arguments of
  \<^verbatim>\<open>printf("Thread %d:\t %d:%d\t(%d)\n", ...)\<close>, or nothing when \<^verbatim>\<open>print_thread\<close> is not 1.
\<close>

datatype event =
  PrintEarth "char list" int
| PrintPartition int int int int

definition partition_diagnostic :: "Threads \<Rightarrow> event list" where
  "partition_diagnostic thread_data =
     (if print_thread thread_data = 1
      then [PrintPartition (tid thread_data) (row_start thread_data) (row_end thread_data)
              (int32 (row_end thread_data - row_start thread_data))]
      else [])"

section \<open>The neighbour count (\<^verbatim>\<open>neighbors\<close>)\<close>

text \<open>
  The eight indices that \<^verbatim>\<open>neighbors\<close> computes, in the order in which it reads the
  board at them: \<^verbatim>\<open>l_index\<close>, \<^verbatim>\<open>r_index\<close>, \<^verbatim>\<open>upper\<close>, \<^verbatim>\<open>l_upper\<close>,
  \<^verbatim>\<open>r_upper\<close>, \<^verbatim>\<open>lower\<close>, \<^verbatim>\<open>l_lower\<close>, \<^verbatim>\<open>r_lower\<close>.
\<close>

definition neighbor_indices :: "int \<Rightarrow> init_data \<Rightarrow> int list" where
  "neighbor_indices index bounds =
     (let col = index smod num_cols bounds;
          row = index sdiv num_cols bounds;
          r_index = int32 (int32 (row * num_cols bounds) + int32 (col + 1) smod num_cols bounds);
          l_index = int32 (int32 (row * num_cols bounds)
                      + int32 (int32 (col - 1) + num_cols bounds) smod num_cols bounds);
          lower = int32 (int32 (int32 (row + 1) smod num_rows bounds * num_cols bounds) + col);
          upper = int32 (int32 (int32 (int32 (row - 1) + num_rows bounds) smod num_rows bounds
                      * num_cols bounds) + col);
          r_lower = int32 (int32 (lower sdiv num_cols bounds * num_cols bounds)
                      + int32 (lower smod num_cols bounds + 1) smod num_cols bounds);
          l_lower = int32 (int32 (lower sdiv num_cols bounds * num_cols bounds)
                      + int32 (int32 (lower smod num_cols bounds - 1) + num_cols bounds)
                          smod num_cols bounds);
          r_upper = int32 (int32 (upper sdiv num_cols bounds * num_cols bounds)
                      + int32 (upper smod num_cols bounds + 1) smod num_cols bounds);
          l_upper = int32 (int32 (upper sdiv num_cols bounds * num_cols bounds)
                      + int32 (int32 (upper smod num_cols bounds - 1) + num_cols bounds)
                          smod num_cols bounds)
      in [l_index, r_index, upper, l_upper, r_upper, lower, l_lower, r_lower])"

text \<open>
  \<^verbatim>\<open>if (earth[i] == '@') { neighbors += 1; }\<close> for each index in turn, from the count
  \<open>n\<close> so far.
\<close>

fun count_live :: "char list \<Rightarrow> int list \<Rightarrow> int \<Rightarrow> int option" where
  "count_live earth [] n = Some n"
| "count_live earth (i # is) n =
     do { c \<leftarrow> rd earth i;
          count_live earth is (if c = CHR ''@'' then int32 (n + 1) else n) }"

text \<open>
  Every division of \<^verbatim>\<open>neighbors\<close> is by \<^verbatim>\<open>num_cols\<close> or \<^verbatim>\<open>num_rows\<close>, and the first
  statement already divides by \<^verbatim>\<open>num_cols\<close>; a division by zero traps.
\<close>

definition neighbors :: "char list \<Rightarrow> int \<Rightarrow> init_data \<Rightarrow> int option" where
  "neighbors earth index bounds =
     (if num_cols bounds = 0 \<or> num_rows bounds = 0 then None
      else count_live earth (neighbor_indices index bounds) 0)"

section \<open>One generation (\<^verbatim>\<open>simulateLife\<close>)\<close>

text \<open>\<^verbatim>\<open>start\<close> and \<^verbatim>\<open>end\<close>: the first and the last index of the thread's rows.\<close>

definition range_start :: "Threads \<Rightarrow> init_data \<Rightarrow> int" where
  "range_start thread_data bounds = int32 (row_start thread_data * num_cols bounds)"

definition range_end :: "Threads \<Rightarrow> init_data \<Rightarrow> int" where
  "range_end thread_data bounds =
     int32 (int32 (int32 (row_end thread_data * num_cols bounds) + num_cols bounds) - 1)"

text \<open>
  \<^verbatim>\<open>change\<close>: each call allocates its own array of \<^verbatim>\<open>num_rows * num_cols\<close> zeros
  (\<^verbatim>\<open>calloc\<close>, taken to succeed).
\<close>

definition new_change :: "init_data \<Rightarrow> int list" where
  "new_change bounds = replicate (nat (int32 (num_rows bounds * num_cols bounds))) 0"

text \<open>
  The first loop, \<^verbatim>\<open>for (int i = start; i < end + 1; i++)\<close>. The counter stays below
  \<^verbatim>\<open>end + 1\<close>, itself an \<^verbatim>\<open>int\<close>, so \<^verbatim>\<open>i++\<close> cannot overflow. A live cell asks for
  its neighbour count once or twice, as the source does.
\<close>

function decide_loop ::
  "char list \<Rightarrow> init_data \<Rightarrow> int \<Rightarrow> int \<Rightarrow> int list \<Rightarrow> int list option" where
  "decide_loop earth bounds end i change =
     (if i < int32 (end + 1) then
        do { c \<leftarrow> rd earth i;
             change1 \<leftarrow>
               (if c = CHR ''@'' then
                  do { n \<leftarrow> neighbors earth i bounds;
                       if n \<le> 1 then wr change i (- 1)
                       else do { n' \<leftarrow> neighbors earth i bounds;
                                 if n' \<ge> 4 then wr change i (- 1) else Some change } }
                else Some change);
             c' \<leftarrow> rd earth i;
             change2 \<leftarrow>
               (if c' = CHR ''-'' then
                  do { n \<leftarrow> neighbors earth i bounds;
                       if n = 3 then wr change1 i (- 2) else Some change1 }
                else Some change1);
             decide_loop earth bounds end (i + 1) change2 }
      else Some change)"
  by pat_completeness auto
termination
  by (relation "measure (\<lambda>(earth, bounds, end, i, change). nat (int32 (end + 1) - i))") auto

text \<open>The second loop, \<^verbatim>\<open>for (int j = start; j < end + 1; ++j)\<close>.\<close>

function apply_loop :: "int list \<Rightarrow> int \<Rightarrow> int \<Rightarrow> char list \<Rightarrow> char list option" where
  "apply_loop change end j earth =
     (if j < int32 (end + 1) then
        do { m \<leftarrow> rd change j;
             earth' \<leftarrow>
               (if m = - 1 then wr earth j CHR ''-''
                else if m = - 2 then wr earth j CHR ''@''
                else Some earth);
             apply_loop change end (j + 1) earth' }
      else Some earth)"
  by pat_completeness auto
termination
  by (relation "measure (\<lambda>(change, end, j, earth). nat (int32 (end + 1) - j))") auto

text \<open>
  \<^verbatim>\<open>simulateLife\<close> is the two loops with a barrier wait before each and one after the
  second. \<open>simulateLife_decide\<close> is what one thread does between the first two waits: it
  reads the board and fills its own \<^verbatim>\<open>change\<close>. \<open>simulateLife_apply\<close> is what it does
  between the second and the third: it reads its \<^verbatim>\<open>change\<close> and writes the board.
\<close>

definition simulateLife_decide :: "char list \<Rightarrow> init_data \<Rightarrow> Threads \<Rightarrow> int list option" where
  "simulateLife_decide earth bounds thread_data =
     decide_loop earth bounds (range_end thread_data bounds) (range_start thread_data bounds)
       (new_change bounds)"

definition simulateLife_apply ::
  "int list \<Rightarrow> init_data \<Rightarrow> Threads \<Rightarrow> char list \<Rightarrow> char list option" where
  "simulateLife_apply change bounds thread_data earth =
     apply_loop change (range_end thread_data bounds) (range_start thread_data bounds) earth"

text \<open>One thread running \<^verbatim>\<open>simulateLife\<close> with no other thread writing the board.\<close>

definition simulateLife :: "Threads \<Rightarrow> init_data \<Rightarrow> char list \<Rightarrow> char list option" where
  "simulateLife thread_data bounds earth =
     do { change \<leftarrow> simulateLife_decide earth bounds thread_data;
          simulateLife_apply change bounds thread_data earth }"

section \<open>The thread pool (\<^verbatim>\<open>threadFunc\<close> on every thread)\<close>

text \<open>
  All threads wait at the same barrier, so no thread starts its second loop before every
  thread has finished its first, and no thread starts the next generation before every
  thread has finished its second loop. A generation of the pool is therefore: every
  thread's first loop on the board as the generation found it, then every thread's second
  loop. Within a phase the model runs the threads in the order of the array.
\<close>

fun decide_all :: "char list \<Rightarrow> init_data \<Rightarrow> Threads list \<Rightarrow> int list list option" where
  "decide_all earth bounds [] = Some []"
| "decide_all earth bounds (td # tds) =
     do { change \<leftarrow> simulateLife_decide earth bounds td;
          changes \<leftarrow> decide_all earth bounds tds;
          Some (change # changes) }"

fun apply_all :: "init_data \<Rightarrow> Threads list \<Rightarrow> int list list \<Rightarrow> char list \<Rightarrow> char list option" where
  "apply_all bounds (td # tds) (change # changes) earth =
     do { earth' \<leftarrow> simulateLife_apply change bounds td earth;
          apply_all bounds tds changes earth' }"
| "apply_all bounds tds changes earth = Some earth"

definition generation :: "init_data \<Rightarrow> Threads list \<Rightarrow> char list \<Rightarrow> char list option" where
  "generation bounds tds earth =
     do { changes \<leftarrow> decide_all earth bounds tds;
          apply_all bounds tds changes earth }"

text \<open>
  After the generation, the thread with \<^verbatim>\<open>tid == 0 && verbose == 1\<close> calls
  \<^verbatim>\<open>printEarth(earth, bounds, i)\<close>; the event records the board and \<open>i\<close>.
\<close>

definition report :: "Threads \<Rightarrow> char list \<Rightarrow> int \<Rightarrow> event list" where
  "report thread_data earth i =
     (if tid thread_data = 0 \<and> verbose thread_data = 1 then [PrintEarth earth i] else [])"

function iterate ::
  "init_data \<Rightarrow> Threads list \<Rightarrow> int \<Rightarrow> char list \<Rightarrow> event list
     \<Rightarrow> (char list \<times> event list) option" where
  "iterate bounds tds i earth out =
     (if i < iterations bounds then
        do { earth' \<leftarrow> generation bounds tds earth;
             iterate bounds tds (i + 1) earth'
               (out @ concat (map (\<lambda>td. report td earth' i) tds)) }
      else Some (earth, out))"
  by pat_completeness auto
termination
  by (relation "measure (\<lambda>(bounds, tds, i, earth, out). nat (iterations bounds - i))") auto

definition threadFunc ::
  "init_data \<Rightarrow> Threads list \<Rightarrow> char list \<Rightarrow> (char list \<times> event list) option" where
  "threadFunc bounds tds earth =
     do { (earth', out) \<leftarrow> iterate bounds tds 0 earth [];
          Some (earth', out @ concat (map partition_diagnostic tds)) }"

section \<open>Reading the configuration (\<^verbatim>\<open>initEarth\<close>) and \<^verbatim>\<open>main\<close>\<close>

text \<open>
  The loop over the \<^verbatim>\<open>col row\<close> pairs of the file:
  \<^verbatim>\<open>index = (bounds->num_cols * row) + col; earth[index] = '@';\<close>.
\<close>

definition cell_index :: "init_data \<Rightarrow> int \<Rightarrow> int \<Rightarrow> int" where
  "cell_index bounds col row = int32 (int32 (num_cols bounds * row) + col)"

fun set_alive :: "init_data \<Rightarrow> (int \<times> int) list \<Rightarrow> char list \<Rightarrow> char list option" where
  "set_alive bounds [] earth = Some earth"
| "set_alive bounds ((col, row) # pairs) earth =
     do { earth' \<leftarrow> wr earth (cell_index bounds col row) CHR ''@'';
          set_alive bounds pairs earth' }"

text \<open>
  \<^verbatim>\<open>initEarth\<close> on a file that holds the four header numbers \<open>bounds\<close> and then
  \<open>pairs\<close>. \<^verbatim>\<open>malloc\<close> (taken to succeed) returns
  \<^verbatim>\<open>num_rows * num_cols * sizeof(int)\<close> bytes; the first \<^verbatim>\<open>num_rows * num_cols\<close> of them
  are set to \<^verbatim>\<open>'-'\<close>, and \<open>rest\<close> is what the block holds behind them.
\<close>

definition initEarth :: "init_data \<Rightarrow> (int \<times> int) list \<Rightarrow> char list \<Rightarrow> char list option" where
  "initEarth bounds pairs rest =
     set_alive bounds pairs
       (replicate (nat (int32 (num_rows bounds * num_cols bounds))) CHR ''-'' @ rest)"

text \<open>
  \<^verbatim>\<open>main\<close>, from the call of \<^verbatim>\<open>initEarth\<close> to the join of the threads. A run ends in
  \<^verbatim>\<open>exit(1)\<close>, in undefined behaviour, or with the final board and what was printed.
\<close>

datatype outcome =
  Exited int
| Undefined
| Finished "char list" "event list"

definition gol_main ::
  "init_data \<Rightarrow> (int \<times> int) list \<Rightarrow> char list \<Rightarrow> int \<Rightarrow> int \<Rightarrow> int \<Rightarrow> outcome" where
  "gol_main bounds pairs rest num_threads p_flag vflag =
     (case initEarth bounds pairs rest of
        None \<Rightarrow> Undefined
      | Some earth \<Rightarrow>
          (case partition_rows bounds num_threads p_flag vflag of
             None \<Rightarrow> Exited 1
           | Some tds \<Rightarrow>
               (case threadFunc bounds tds earth of
                  None \<Rightarrow> Undefined
                | Some (earth', out) \<Rightarrow> Finished earth' out)))"

section \<open>Notions of the specification\<close>

text \<open>
  The eight neighbours of the cell in row \<open>r\<close> and column \<open>c\<close> on the torus, as a list
  with repetitions: \<open>((r + dr) mod rows, (c + dc) mod cols)\<close> for \<open>(dr, dc)\<close> in
  \<open>{-1, 0, 1}\<^sup>2\<close> without \<open>(0, 0)\<close>.
\<close>

definition torus_neighbours :: "int \<Rightarrow> int \<Rightarrow> int \<Rightarrow> int \<Rightarrow> (int \<times> int) list" where
  "torus_neighbours rows cols r c =
     map (\<lambda>(dr, dc). ((r + dr) mod rows, (c + dc) mod cols))
       [(- 1, - 1), (- 1, 0), (- 1, 1), (0, - 1), (0, 1), (1, - 1), (1, 0), (1, 1)]"

definition alive_at :: "char list \<Rightarrow> int \<Rightarrow> int \<times> int \<Rightarrow> bool" where
  "alive_at earth cols rc = (earth ! nat (fst rc * cols + snd rc) = CHR ''@'')"

definition torus_count :: "char list \<Rightarrow> int \<Rightarrow> int \<Rightarrow> int \<Rightarrow> int" where
  "torus_count earth rows cols index =
     int (length (filter (alive_at earth cols)
       (torus_neighbours rows cols (index div cols) (index mod cols))))"

text \<open>
  The boards on which the arithmetic of \<^verbatim>\<open>neighbors\<close> is exact: the number of cells is an
  \<^verbatim>\<open>int\<close>, and neither \<^verbatim>\<open>(row - 1) + num_rows\<close> nor \<^verbatim>\<open>(col - 1) + num_cols\<close>
  exceeds \<^verbatim>\<open>INT_MAX\<close>.
\<close>

definition safe_bounds :: "init_data \<Rightarrow> bool" where
  "safe_bounds bounds =
     (1 \<le> num_rows bounds \<and> num_rows bounds \<le> 1073741824
      \<and> 1 \<le> num_cols bounds \<and> num_cols bounds \<le> 1073741824
      \<and> num_rows bounds * num_cols bounds \<le> INT_MAX)"

text \<open>
  A board with at least one row and one column whose number of cells is an \<^verbatim>\<open>int\<close>, and
  a thread whose rows \<open>row_start .. row_end\<close> lie on it. \<open>in_range\<close>: the index \<open>k\<close> lies in
  the rows of the thread.
\<close>

definition valid_bounds :: "init_data \<Rightarrow> bool" where
  "valid_bounds bounds =
     (1 \<le> num_rows bounds \<and> 1 \<le> num_cols bounds
      \<and> num_rows bounds * num_cols bounds \<le> INT_MAX)"

definition valid_thread :: "init_data \<Rightarrow> Threads \<Rightarrow> bool" where
  "valid_thread bounds td =
     (0 \<le> row_start td \<and> row_start td \<le> row_end td \<and> row_end td < num_rows bounds)"

definition in_range :: "init_data \<Rightarrow> Threads \<Rightarrow> int \<Rightarrow> bool" where
  "in_range bounds td k =
     (row_start td * num_cols bounds \<le> k \<and> k < (row_end td + 1) * num_cols bounds)"

text \<open>
  The mark that the first loop of \<^verbatim>\<open>simulateLife\<close> leaves for cell \<open>i\<close> (0 when it writes
  none), and the cell that the second loop makes of a cell under a mark.
\<close>

definition mark_of :: "char list \<Rightarrow> init_data \<Rightarrow> int \<Rightarrow> int option" where
  "mark_of earth bounds i =
     do { c \<leftarrow> rd earth i;
          if c = CHR ''@'' then
            do { n \<leftarrow> neighbors earth i bounds; Some (if n \<le> 1 \<or> n \<ge> 4 then - 1 else 0) }
          else if c = CHR ''-'' then
            do { n \<leftarrow> neighbors earth i bounds; Some (if n = 3 then - 2 else 0) }
          else Some 0 }"

definition apply_mark :: "int \<Rightarrow> char \<Rightarrow> char" where
  "apply_mark m c = (if m = - 1 then CHR ''-'' else if m = - 2 then CHR ''@'' else c)"

text \<open>
  The first row of worker \<open>k\<close> when \<open>rows\<close> rows are dealt to \<open>W\<close> workers and the first
  \<open>rows mod W\<close> workers take one row more than the others.
\<close>

definition part_start :: "int \<Rightarrow> int \<Rightarrow> int \<Rightarrow> int" where
  "part_start rows W k = k * (rows div W) + min k (rows mod W)"

definition part_thread :: "init_data \<Rightarrow> int \<Rightarrow> int \<Rightarrow> int \<Rightarrow> int \<Rightarrow> Threads" where
  "part_thread bounds W p_flag vflag k =
     \<lparr>row_start = part_start (num_rows bounds) W k,
      row_end = part_start (num_rows bounds) W (k + 1) - 1,
      print_thread = p_flag, tid = k,
      verbose = (if vflag = 1 \<and> k = 0 then 1 else 0)\<rparr>"

text \<open>The live cells of a board as \<open>(col, row)\<close> pairs, the way the configuration file names them.\<close>

definition live_cells :: "init_data \<Rightarrow> char list \<Rightarrow> (int \<times> int) set" where
  "live_cells bounds earth =
     set (concat (map (\<lambda>row. concat (map (\<lambda>col.
        if rd earth (num_cols bounds * row + col) = Some CHR ''@'' then [(col, row)] else [])
        [0 .. num_cols bounds - 1])) [0 .. num_rows bounds - 1]))"

section \<open>Unfolding the loops\<close>

text \<open>The loops are unfolded one step at a time, by hand.\<close>

declare init_thread_data.simps [simp del]
declare decide_loop.simps [simp del]
declare apply_loop.simps [simp del]
declare iterate.simps [simp del]

section \<open>C arithmetic within range\<close>

lemma int32_id: "INT_MIN \<le> x \<Longrightarrow> x \<le> INT_MAX \<Longrightarrow> int32 x = x"
  unfolding int32_def INT_MIN_def INT_MAX_def
  by (rule signed_take_bit_int_eq_self) simp_all

lemma sdiv_nonneg: "0 \<le> a \<Longrightarrow> 0 \<le> b \<Longrightarrow> (a::int) sdiv b = a div b"
  by (simp add: signed_divide_int_def sgn_if)

lemma smod_nonneg: "0 \<le> a \<Longrightarrow> 0 \<le> b \<Longrightarrow> (a::int) smod b = a mod b"
  by (rule smod_mod_positive)

section \<open>The row partition is a disjoint cover\<close>

lemma part_start_step:
  "part_start rows W (k + 1) = part_start rows W k + rows div W + (if k < rows mod W then 1 else 0)"
  by (simp add: part_start_def algebra_simps min_def)

lemma part_start_W:
  assumes "0 < W" "0 \<le> rows" shows "part_start rows W W = rows"
proof -
  have "rows mod W < W" using assms by simp
  then show ?thesis by (simp add: part_start_def min_def)
qed

lemma part_start_mono:
  assumes "0 < W" "0 \<le> rows" "j \<le> k"
  shows "part_start rows W j \<le> part_start rows W k"
proof -
  have "0 \<le> rows div W" using assms by (simp add: pos_imp_zdiv_nonneg_iff)
  then have "j * (rows div W) \<le> k * (rows div W)" using assms(3) by (rule mult_right_mono[rotated])
  then show ?thesis using assms(3) by (simp add: part_start_def min_def)
qed

lemma part_start_bounds:
  assumes "0 < W" "0 \<le> rows" "0 \<le> k" "k \<le> W"
  shows "0 \<le> part_start rows W k" "part_start rows W k \<le> rows"
proof -
  have "part_start rows W 0 \<le> part_start rows W k" using assms by (intro part_start_mono) auto
  moreover have "part_start rows W 0 = 0" using assms by (simp add: part_start_def)
  ultimately show "0 \<le> part_start rows W k" by simp
  have "part_start rows W k \<le> part_start rows W W" using assms by (intro part_start_mono) auto
  then show "part_start rows W k \<le> rows" using assms by (simp add: part_start_W)
qed

lemma init_thread_data_closed:
  assumes "1 \<le> W" "W \<le> num_rows bounds" "num_rows bounds \<le> INT_MAX" "0 \<le> i" "i \<le> W"
    and "i = 0 \<or> row_end (last td) = part_start (num_rows bounds) W i - 1"
  shows "init_thread_data bounds W p_flag vflag i td
           = td @ map (part_thread bounds W p_flag vflag) [i .. W - 1]"
  using assms
proof (induction bounds W p_flag vflag i td rule: init_thread_data.induct)
  case (1 bounds W p_flag vflag i td)
  let ?rows = "num_rows bounds"
  show ?case
  proof (cases "i < W")
    case False
    with "1.prems" have "[i .. W - 1] = []" by simp
    with False show ?thesis by (simp add: init_thread_data.simps)
  next
    case True
    have q: "?rows sdiv W = ?rows div W" and r: "?rows smod W = ?rows mod W"
      using "1.prems" by (simp_all add: sdiv_nonneg smod_nonneg)
    have W: "0 < W" "0 \<le> ?rows" using "1.prems" by auto
    have b0: "0 \<le> part_start ?rows W i" "part_start ?rows W i \<le> ?rows"
      using part_start_bounds[OF W, of i] "1.prems" by auto
    have b1: "0 \<le> part_start ?rows W (i + 1)" "part_start ?rows W (i + 1) \<le> ?rows"
      using part_start_bounds[OF W, of "i + 1"] "1.prems" True by auto
    have qn: "0 \<le> ?rows div W" using W by (simp add: pos_imp_zdiv_nonneg_iff)
    define rs where "rs = (if i = 0 then 0 else int32 (row_end (last td) + 1))"
    define re where "re = (if i < ?rows smod W then int32 (rs + ?rows sdiv W)
                           else int32 (int32 (rs + ?rows sdiv W) - 1))"
    have rs: "rs = part_start ?rows W i"
    proof (cases "i = 0")
      case True then show ?thesis using W by (simp add: rs_def part_start_def)
    next
      case False
      with "1.prems" have "row_end (last td) + 1 = part_start ?rows W i" by simp
      then show ?thesis using False b0 "1.prems"(3)
        by (simp add: rs_def int32_id INT_MIN_def)
    qed
    have re: "re = part_start ?rows W (i + 1) - 1"
    proof (cases "i < ?rows mod W")
      case True
      then have "rs + ?rows div W = part_start ?rows W (i + 1) - 1"
        by (simp add: rs part_start_step)
      then show ?thesis using True b1 "1.prems"(3) b0 rs qn
        by (simp add: re_def q r int32_id INT_MIN_def)
    next
      case False
      then have e: "rs + ?rows div W = part_start ?rows W (i + 1)"
        by (simp add: rs part_start_step)
      have "int32 (rs + ?rows div W) = part_start ?rows W (i + 1)"
        unfolding e using b1 "1.prems"(3) by (simp add: int32_id INT_MIN_def)
      then show ?thesis using False b1 "1.prems"(3)
        by (simp add: re_def q r int32_id INT_MIN_def)
    qed
    let ?t = "\<lparr>row_start = rs, row_end = re, print_thread = p_flag, tid = i,
                verbose = (if vflag = 1 \<and> i = 0 then 1 else 0)\<rparr>"
    have t: "?t = part_thread bounds W p_flag vflag i"
      by (simp add: part_thread_def rs re)
    have step: "init_thread_data bounds W p_flag vflag i td
                  = init_thread_data bounds W p_flag vflag (i + 1) (td @ [?t])"
      using True by (subst init_thread_data.simps) (simp add: rs_def re_def Let_def)
    have IH: "init_thread_data bounds W p_flag vflag (i + 1) (td @ [?t])
                = (td @ [?t]) @ map (part_thread bounds W p_flag vflag) [i + 1 .. W - 1]"
      using "1.prems" True
      by (intro "1.IH"[OF True rs_def re_def]) (auto simp: re)
    have u: "[i .. W - 1] = i # [i + 1 .. W - 1]" using True by (simp add: upto_rec1)
    show ?thesis unfolding step IH by (simp add: u t)
  qed
qed

lemma part_thread_nth:
  assumes "k < nat W"
  shows "map (part_thread bounds W p v) [0 .. W - 1] ! k = part_thread bounds W p v (int k)"
proof -
  have "[0 .. W - 1] ! k = int k" using assms by (subst nth_upto) auto
  moreover have "k < length [0 .. W - 1]" using assms by simp
  ultimately show ?thesis by simp
qed

lemma part_start_strict:
  assumes "0 < W" "W \<le> rows" "j < k"
  shows "part_start rows W j < part_start rows W k"
proof -
  have q: "1 \<le> rows div W" using assms by (simp add: pos_imp_zdiv_pos_iff Suc_le_eq int_one_le_iff_zero_less)
  have "part_start rows W (j + 1) \<le> part_start rows W k"
    using assms by (intro part_start_mono) auto
  moreover have "part_start rows W j < part_start rows W (j + 1)"
    using q by (simp add: part_start_step)
  ultimately show ?thesis by simp
qed

lemma part_start_covers:
  assumes "0 < W" "0 \<le> rows" "0 \<le> x" "x < part_start rows W (int n)"
  shows "\<exists>k < n. part_start rows W (int k) \<le> x \<and> x < part_start rows W (int k + 1)"
  using assms(4)
proof (induction n)
  case 0
  then show ?case using assms by (simp add: part_start_def)
next
  case (Suc n)
  show ?case
  proof (cases "x < part_start rows W (int n)")
    case True
    from Suc.IH [OF this] show ?thesis using less_Suc_eq by auto
  next
    case False
    with Suc.prems have "part_start rows W (int n) \<le> x \<and> x < part_start rows W (int n + 1)"
      by (simp add: add.commute)
    then show ?thesis by blast
  qed
qed

lemma ceil_div:
  assumes "0 < W" "0 < rows mod W"
  shows "(rows + W - 1) div W = rows div W + (1::int)"
proof -
  have lt: "rows mod W < W" using assms(1) by simp
  have "(rows + W - 1) div W = ((rows mod W - 1) + (rows div W + 1) * W) div W"
    by (rule arg_cong[where f = "\<lambda>x. x div W"]) (simp add: algebra_simps)
  also have "\<dots> = (rows div W + 1) + (rows mod W - 1) div W"
    using assms(1) by (subst div_mult_self1) auto
  also have "(rows mod W - 1) div W = 0"
    using assms(2) lt by (intro div_pos_pos_trivial) auto
  finally show ?thesis by simp
qed

text \<open>
  Claim C1. For a thread count \<open>W\<close> from 1 to the number of rows, \<^verbatim>\<open>main\<close> gives thread
  \<open>k\<close> (its \<^verbatim>\<open>tid\<close>) the inclusive row range \<open>row_start .. row_end\<close> such that: each
  range is non-empty and lies in \<open>[0, rows)\<close>; every row belongs to exactly one range; the
  size \<open>row_end - row_start + 1\<close> is \<open>\<lceil>rows / W\<rceil>\<close> for the first \<open>rows mod W\<close> threads and
  \<open>\<lfloor>rows / W\<rfloor>\<close> for the others, so two sizes differ by at most 1. The number of rows is a
  C \<^verbatim>\<open>int\<close>. For 10 rows and 3 threads the ranges are \<open>0..3\<close>, \<open>4..6\<close>, \<open>7..9\<close>, of
  sizes 4, 3, 3.
\<close>

theorem partition_rows_disjoint_cover:
  assumes "1 \<le> W" "W \<le> num_rows bounds" "num_rows bounds \<le> INT_MAX"
  shows "\<exists>tds. partition_rows bounds W p_flag vflag = Some tds
     \<and> length tds = nat W
     \<and> (\<forall>k < length tds. tid (tds ! k) = int k)
     \<and> (\<forall>k < length tds. 0 \<le> row_start (tds ! k) \<and> row_start (tds ! k) \<le> row_end (tds ! k)
            \<and> row_end (tds ! k) < num_rows bounds)
     \<and> (\<forall>x. 0 \<le> x \<and> x < num_rows bounds \<longrightarrow>
            (\<exists>!k. k < length tds \<and> row_start (tds ! k) \<le> x \<and> x \<le> row_end (tds ! k)))
     \<and> (\<forall>k < length tds. row_end (tds ! k) - row_start (tds ! k) + 1
            = (if int k < num_rows bounds mod W then (num_rows bounds + W - 1) div W
               else num_rows bounds div W))
     \<and> (\<forall>j < length tds. \<forall>k < length tds.
            \<bar>(row_end (tds ! j) - row_start (tds ! j) + 1)
               - (row_end (tds ! k) - row_start (tds ! k) + 1)\<bar> \<le> 1)"
proof -
  let ?rows = "num_rows bounds"
  let ?tds = "map (part_thread bounds W p_flag vflag) [0 .. W - 1]"
  let ?ps = "part_start ?rows W"
  have W: "0 < W" "0 \<le> ?rows" using assms by auto
  have q: "1 \<le> ?rows div W" using assms by (simp add: pos_imp_zdiv_pos_iff int_one_le_iff_zero_less)
  have P: "partition_rows bounds W p_flag vflag = Some ?tds"
    using assms init_thread_data_closed[of W bounds 0 "[]" p_flag vflag]
    by (simp add: partition_rows_def)
  have L: "length ?tds = nat W" using assms by simp
  have N: "?tds ! k = part_thread bounds W p_flag vflag (int k)" if "k < nat W" for k
    using that by (rule part_thread_nth)
  have S: "row_start (?tds ! k) = ?ps (int k)" "row_end (?tds ! k) = ?ps (int k + 1) - 1"
          "tid (?tds ! k) = int k"
    if "k < nat W" for k
    using N[OF that] by (simp_all add: part_thread_def)
  have size: "?ps (int k + 1) - 1 - ?ps (int k) + 1
                = (if int k < ?rows mod W then (?rows + W - 1) div W else ?rows div W)" for k
  proof (cases "int k < ?rows mod W")
    case True
    then have "0 < ?rows mod W" by linarith
    from ceil_div[OF W(1) this] True show ?thesis by (simp add: part_start_step)
  next
    case False
    then show ?thesis by (simp add: part_start_step)
  qed
  have size2: "?ps (int k + 1) - 1 - ?ps (int k) + 1 = ?rows div W
               \<or> ?ps (int k + 1) - 1 - ?ps (int k) + 1 = ?rows div W + 1" for k
    by (simp add: part_start_step)
  have c3: "\<forall>k < length ?tds. tid (?tds ! k) = int k" using S L by simp
  have c4: "\<forall>k < length ?tds. 0 \<le> row_start (?tds ! k) \<and> row_start (?tds ! k) \<le> row_end (?tds ! k)
            \<and> row_end (?tds ! k) < ?rows"
  proof (intro allI impI)
    fix k assume "k < length ?tds"
    then have k: "k < nat W" using L by simp
    have a: "0 \<le> ?ps (int k)" using part_start_bounds(1)[OF W, of "int k"] k by auto
    have b: "?ps (int k + 1) \<le> ?rows" using part_start_bounds(2)[OF W, of "int k + 1"] k by auto
    have c: "?ps (int k) < ?ps (int k + 1)" using part_start_strict[OF W(1) assms(2), of "int k" "int k + 1"] by simp
    show "0 \<le> row_start (?tds ! k) \<and> row_start (?tds ! k) \<le> row_end (?tds ! k)
            \<and> row_end (?tds ! k) < ?rows"
      using a b c by (simp add: S[OF k])
  qed
  have c5: "\<forall>x. 0 \<le> x \<and> x < ?rows \<longrightarrow>
            (\<exists>!k. k < length ?tds \<and> row_start (?tds ! k) \<le> x \<and> x \<le> row_end (?tds ! k))"
  proof (intro allI impI)
    fix x assume x: "0 \<le> x \<and> x < ?rows"
    have "x < ?ps (int (nat W))" using x W by (simp add: part_start_W)
    from part_start_covers[OF W _ this] x obtain k where
      k: "k < nat W" "?ps (int k) \<le> x" "x < ?ps (int k + 1)" by auto
    show "\<exists>!k. k < length ?tds \<and> row_start (?tds ! k) \<le> x \<and> x \<le> row_end (?tds ! k)"
    proof (rule ex1I[of _ k])
      show "k < length ?tds \<and> row_start (?tds ! k) \<le> x \<and> x \<le> row_end (?tds ! k)"
        using k L S[OF k(1)] by simp
    next
      fix j assume "j < length ?tds \<and> row_start (?tds ! j) \<le> x \<and> x \<le> row_end (?tds ! j)"
      then have j: "j < nat W" "?ps (int j) \<le> x" "x < ?ps (int j + 1)"
        using L S by auto
      show "j = k"
      proof (rule ccontr)
        assume "j \<noteq> k"
        then consider "j < k" | "k < j" by linarith
        then show False
        proof cases
          case 1
          then have "?ps (int j + 1) \<le> ?ps (int k)"
            by (intro part_start_mono[OF W]) auto
          with j k show False by linarith
        next
          case 2
          then have "?ps (int k + 1) \<le> ?ps (int j)"
            by (intro part_start_mono[OF W]) auto
          with j k show False by linarith
        qed
      qed
    qed
  qed
  have c6: "\<forall>k < length ?tds. row_end (?tds ! k) - row_start (?tds ! k) + 1
            = (if int k < ?rows mod W then (?rows + W - 1) div W else ?rows div W)"
    using size S L by simp
  have c7: "\<forall>j < length ?tds. \<forall>k < length ?tds.
            \<bar>(row_end (?tds ! j) - row_start (?tds ! j) + 1)
               - (row_end (?tds ! k) - row_start (?tds ! k) + 1)\<bar> \<le> 1"
  proof (intro allI impI)
    fix j k assume "j < length ?tds" "k < length ?tds"
    then have jk: "j < nat W" "k < nat W" using L by simp_all
    show "\<bar>(row_end (?tds ! j) - row_start (?tds ! j) + 1)
               - (row_end (?tds ! k) - row_start (?tds ! k) + 1)\<bar> \<le> 1"
      using size2[of j] size2[of k] unfolding S[OF jk(1)] S[OF jk(2)] by linarith
  qed
  from P L c3 c4 c5 c6 c7 show ?thesis by blast
qed

theorem partition_rows_disjoint_cover_witness:
  "(1::int) \<le> 3 \<and> 3 \<le> num_rows \<lparr>num_rows = 10, num_cols = 5, iterations = 0, init_pairs = 0\<rparr>
   \<and> num_rows \<lparr>num_rows = 10, num_cols = 5, iterations = 0, init_pairs = 0\<rparr> \<le> INT_MAX
   \<and> map_option (map (\<lambda>t. (tid t, row_start t, row_end t, row_end t - row_start t + 1)))
        (partition_rows \<lparr>num_rows = 10, num_cols = 5, iterations = 0, init_pairs = 0\<rparr> 3 0 0)
      = Some [(0, 0, 3, 4), (1, 4, 6, 3), (2, 7, 9, 3)]"
proof -
  have "partition_rows \<lparr>num_rows = 10, num_cols = 5, iterations = 0, init_pairs = 0\<rparr> 3 0 0
        = Some [\<lparr>row_start = 0, row_end = 3, print_thread = 0, tid = 0, verbose = 0\<rparr>,
                \<lparr>row_start = 4, row_end = 6, print_thread = 0, tid = 1, verbose = 0\<rparr>,
                \<lparr>row_start = 7, row_end = 9, print_thread = 0, tid = 2, verbose = 0\<rparr>]"
    by code_simp
  then show ?thesis
    using partition_rows_disjoint_cover [of 3 "\<lparr>num_rows = 10, num_cols = 5, iterations = 0, init_pairs = 0\<rparr>" 0 0]
    by (simp add: INT_MAX_def)
qed

section \<open>The run without generations\<close>

lemma iterate_done:
  "iterations bounds \<le> i \<Longrightarrow> iterate bounds tds i earth out = Some (earth, out)"
  by (simp add: iterate.simps)

lemma partition_diagnostic_no_PrintEarth:
  "e \<in> set (concat (map partition_diagnostic tds)) \<Longrightarrow> e \<noteq> PrintEarth g i"
  by (auto simp: partition_diagnostic_def split: if_splits)

text \<open>
  Claim C6. With \<open>iterations = 0\<close> the threads return normally, the board is the one they
  were given, cell for cell, and nothing is printed but the partition diagnostics: there
  is no call of \<^verbatim>\<open>printEarth\<close>.
\<close>

theorem threadFunc_zero_iterations:
  assumes "iterations bounds = 0"
  shows "threadFunc bounds tds earth = Some (earth, concat (map partition_diagnostic tds))
       \<and> (\<forall>e \<in> set (concat (map partition_diagnostic tds)). \<forall>g i. e \<noteq> PrintEarth g i)"
  using assms by (auto simp: threadFunc_def iterate_done partition_diagnostic_no_PrintEarth)

theorem threadFunc_zero_iterations_witness:
  "iterations \<lparr>num_rows = 2, num_cols = 2, iterations = 0, init_pairs = 1\<rparr> = 0
   \<and> threadFunc \<lparr>num_rows = 2, num_cols = 2, iterations = 0, init_pairs = 1\<rparr>
        [\<lparr>row_start = 0, row_end = 1, print_thread = 1, tid = 0, verbose = 1\<rparr>] ''-@@-''
      = Some (''-@@-'', [PrintPartition 0 0 1 1])"
  using threadFunc_zero_iterations
    [of "\<lparr>num_rows = 2, num_cols = 2, iterations = 0, init_pairs = 1\<rparr>"
        "[\<lparr>row_start = 0, row_end = 1, print_thread = 1, tid = 0, verbose = 1\<rparr>]" "''-@@-''"]
  by (simp add: partition_diagnostic_def int32_def)

section \<open>The partition diagnostic\<close>

text \<open>
  Claim C8. The claim has each thread print the size of its range,
  \<open>row_end - row_start + 1\<close>. The fourth number the code prints is
  \<open>row_end - row_start\<close>: for 10 rows on 3 threads, whose ranges \<open>0..3\<close>, \<open>4..6\<close> and
  \<open>7..9\<close> hold 4, 3 and 3 rows, the threads print 3, 2 and 2.
\<close>

theorem partition_diagnostic_prints_difference:
  "map partition_diagnostic
     (init_thread_data \<lparr>num_rows = 10, num_cols = 10, iterations = 0, init_pairs = 0\<rparr> 3 1 0 0 [])
   = [[PrintPartition 0 0 3 3], [PrintPartition 1 4 6 2], [PrintPartition 2 7 9 2]]"
  by code_simp

section \<open>Coordinates of the configuration file\<close>

lemma set_alive_Some:
  assumes "\<forall>(col, row) \<in> set pairs. 0 \<le> cell_index bounds col row
             \<and> cell_index bounds col row < int (length earth)"
  shows "\<exists>earth'. set_alive bounds pairs earth = Some earth' \<and> length earth' = length earth
          \<and> (\<forall>(col, row) \<in> set pairs. rd earth' (cell_index bounds col row) = Some CHR ''@'')
          \<and> (\<forall>i. rd earth i = Some CHR ''@'' \<longrightarrow> rd earth' i = Some CHR ''@'')"
  using assms
proof (induction pairs arbitrary: earth)
  case Nil
  then show ?case by simp
next
  case (Cons p pairs)
  obtain col row where p: "p = (col, row)" by (cases p)
  let ?k = "cell_index bounds col row"
  let ?e = "earth[nat ?k := CHR ''@'']"
  from Cons.prems p have k: "0 \<le> ?k" "?k < int (length earth)" by auto
  then have w: "wr earth ?k CHR ''@'' = Some ?e" by (simp add: wr_def)
  have "\<forall>(col, row) \<in> set pairs. 0 \<le> cell_index bounds col row
          \<and> cell_index bounds col row < int (length ?e)"
    using Cons.prems by auto
  from Cons.IH [OF this] obtain earth' where
    e': "set_alive bounds pairs ?e = Some earth'" "length earth' = length ?e"
        "\<forall>(col, row) \<in> set pairs. rd earth' (cell_index bounds col row) = Some CHR ''@''"
        "\<forall>i. rd ?e i = Some CHR ''@'' \<longrightarrow> rd earth' i = Some CHR ''@''"
    by blast
  have here: "rd ?e ?k = Some CHR ''@''" using k by (simp add: rd_def)
  have keep: "rd ?e i = Some CHR ''@''" if "rd earth i = Some CHR ''@''" for i
    using that by (cases "nat i = nat ?k") (auto simp: rd_def split: if_splits)
  show ?case
    using e' here keep w p by auto
qed

text \<open>
  Claim C9, as stated, fails. \<^verbatim>\<open>initEarth\<close> compares no coordinate with the bounds.
  On a 2 by 2 board the pair \<open>(col, row) = (2, 0)\<close>, whose column is out of range, is
  index 2: the cell in row 1, column 0 comes alive, nothing is reported, and \<^verbatim>\<open>main\<close>
  runs the generation and prints the board.
\<close>

theorem out_of_range_pair_accepted:
  "initEarth \<lparr>num_rows = 2, num_cols = 2, iterations = 1, init_pairs = 1\<rparr> [(2, 0)]
     ''xxxxxxxxxxxx'' = Some ''--@-xxxxxxxxxxxx''
   \<and> gol_main \<lparr>num_rows = 2, num_cols = 2, iterations = 1, init_pairs = 1\<rparr> [(2, 0)]
       ''xxxxxxxxxxxx'' 1 0 1
     = Finished ''----xxxxxxxxxxxx'' [PrintEarth ''----xxxxxxxxxxxx'' 0]"
  by code_simp

text \<open>
  Claim C9, amended. \<^verbatim>\<open>initEarth\<close> checks no coordinate: whenever the index
  \<open>num_cols * row + col\<close> of every pair falls inside the allocated block, whatever \<open>col\<close>
  and \<open>row\<close> are, \<^verbatim>\<open>initEarth\<close> returns a board with the cell at that index alive, and
  \<^verbatim>\<open>main\<close> goes on to run the threads on it (for a thread count from 1 to \<open>num_rows\<close>).
\<close>

theorem initEarth_checks_no_coordinate:
  assumes "\<forall>(col, row) \<in> set pairs. 0 \<le> cell_index bounds col row
             \<and> cell_index bounds col row
                 < int (nat (int32 (num_rows bounds * num_cols bounds)) + length rest)"
    and "1 \<le> num_threads" and "num_threads \<le> num_rows bounds"
  shows "\<exists>earth. initEarth bounds pairs rest = Some earth
           \<and> (\<forall>(col, row) \<in> set pairs. rd earth (cell_index bounds col row) = Some CHR ''@'')
           \<and> gol_main bounds pairs rest num_threads p_flag vflag
               = (case threadFunc bounds
                         (init_thread_data bounds num_threads p_flag vflag 0 []) earth of
                    None \<Rightarrow> Undefined
                  | Some (earth', out) \<Rightarrow> Finished earth' out)"
proof -
  let ?e0 = "replicate (nat (int32 (num_rows bounds * num_cols bounds))) CHR ''-'' @ rest"
  have "\<forall>(col, row) \<in> set pairs. 0 \<le> cell_index bounds col row
          \<and> cell_index bounds col row < int (length ?e0)"
    using assms(1) by simp
  from set_alive_Some [OF this] obtain earth where
    e: "set_alive bounds pairs ?e0 = Some earth"
       "\<forall>(col, row) \<in> set pairs. rd earth (cell_index bounds col row) = Some CHR ''@''"
    by blast
  then show ?thesis
    using assms(2,3) by (auto simp: initEarth_def gol_main_def partition_rows_def)
qed

theorem initEarth_checks_no_coordinate_witness:
  "0 \<le> cell_index \<lparr>num_rows = 2, num_cols = 2, iterations = 0, init_pairs = 1\<rparr> 2 0
   \<and> cell_index \<lparr>num_rows = 2, num_cols = 2, iterations = 0, init_pairs = 1\<rparr> 2 0 < 16
   \<and> initEarth \<lparr>num_rows = 2, num_cols = 2, iterations = 0, init_pairs = 1\<rparr> [(2, 0)]
       ''xxxxxxxxxxxx'' = Some ''--@-xxxxxxxxxxxx''
   \<and> rd ''--@-xxxxxxxxxxxx''
       (cell_index \<lparr>num_rows = 2, num_cols = 2, iterations = 0, init_pairs = 1\<rparr> 2 0)
     = Some CHR ''@''
   \<and> gol_main \<lparr>num_rows = 2, num_cols = 2, iterations = 0, init_pairs = 1\<rparr> [(2, 0)]
       ''xxxxxxxxxxxx'' 1 0 0 = Finished ''--@-xxxxxxxxxxxx'' []"
proof -
  have i: "initEarth \<lparr>num_rows = 2, num_cols = 2, iterations = 0, init_pairs = 1\<rparr> [(2, 0)]
             ''xxxxxxxxxxxx'' = Some ''--@-xxxxxxxxxxxx''"
    by code_simp
  have t: "threadFunc \<lparr>num_rows = 2, num_cols = 2, iterations = 0, init_pairs = 1\<rparr>
             (init_thread_data \<lparr>num_rows = 2, num_cols = 2, iterations = 0, init_pairs = 1\<rparr>
                1 0 0 0 []) ''--@-xxxxxxxxxxxx''
           = Some (''--@-xxxxxxxxxxxx'', [])"
    by code_simp
  have c: "cell_index \<lparr>num_rows = 2, num_cols = 2, iterations = 0, init_pairs = 1\<rparr> 2 0 = 2"
    by (simp add: cell_index_def int32_def)
  show ?thesis
    using initEarth_checks_no_coordinate
      [of "[(2, 0)]" "\<lparr>num_rows = 2, num_cols = 2, iterations = 0, init_pairs = 1\<rparr>"
          "''xxxxxxxxxxxx''" 1 0 0]
    by (simp add: i t c int32_def rd_def)
qed

section \<open>The neighbour indices and the neighbour count\<close>

lemma cell_bound:
  assumes "0 \<le> r" "r < R" "0 \<le> c" "c < (C::int)"
  shows "0 \<le> r * C + c" "r * C + c < R * C"
proof -
  show "0 \<le> r * C + c" using assms by simp
  have "(r + 1) * C \<le> R * C" using assms by (intro mult_right_mono) auto
  then show "r * C + c < R * C" using assms by (simp add: algebra_simps)
qed

lemma div_less_rows:
  assumes "0 < (C::int)" "i < R * C"
  shows "i div C < R"
proof (rule ccontr)
  assume "\<not> i div C < R"
  then have "R * C \<le> i div C * C" using assms(1) by (intro mult_right_mono) auto
  moreover have "0 \<le> i mod C" using assms(1) by simp
  moreover have "i div C * C + i mod C = i" by simp
  ultimately show False using assms(2) by linarith
qed

lemma cell_div_mod:
  assumes "0 \<le> c" "c < (C::int)"
  shows "(r * C + c) div C = r" "(r * C + c) mod C = c"
  using assms by simp_all

lemma step_right:
  assumes "0 \<le> c" "c < C" "C \<le> 1073741824"
  shows "int32 (c + 1) smod C = (c + 1) mod C"
proof -
  have "int32 (c + 1) = c + 1" using assms by (intro int32_id) (auto simp: INT_MIN_def INT_MAX_def)
  then show ?thesis using assms by (simp add: smod_nonneg)
qed

lemma step_left:
  assumes "0 \<le> c" "c < C" "C \<le> 1073741824"
  shows "int32 (int32 (c - 1) + C) smod C = (c - 1) mod C"
proof -
  have "int32 (c - 1) = c - 1" using assms by (intro int32_id) (auto simp: INT_MIN_def INT_MAX_def)
  moreover have "int32 (c - 1 + C) = c - 1 + C"
    using assms by (intro int32_id) (auto simp: INT_MIN_def INT_MAX_def)
  ultimately show ?thesis using assms by (simp add: smod_nonneg)
qed

lemma cell_int32:
  assumes "0 \<le> r" "r < R" "0 \<le> c" "c < C" "R * C \<le> INT_MAX"
  shows "int32 (int32 (r * C) + c) = r * C + c"
proof -
  have b: "0 \<le> r * C + c" "r * C + c < R * C" using cell_bound[OF assms(1-4)] by auto
  have "0 \<le> r * C" using assms by simp
  moreover have "r * C \<le> r * C + c" using assms by simp
  ultimately have "int32 (r * C) = r * C" using b assms(5)
    by (intro int32_id) (auto simp: INT_MIN_def)
  moreover have "int32 (r * C + c) = r * C + c" using b assms(5)
    by (intro int32_id) (auto simp: INT_MIN_def)
  ultimately show ?thesis by simp
qed

lemma cell_parts:
  assumes "0 \<le> r" "r < R" "0 \<le> c" "c < C" "R * C \<le> INT_MAX"
  shows "(r * C + c) sdiv C = r" "(r * C + c) smod C = c"
  using assms cell_bound(1)[OF assms(1-4)]
  by (simp_all add: sdiv_nonneg smod_nonneg cell_div_mod)

lemma neighbor_indices_safe:
  assumes "safe_bounds bounds" "0 \<le> index" "index < num_rows bounds * num_cols bounds"
  shows "neighbor_indices index bounds =
    (let R = num_rows bounds; C = num_cols bounds; r = index div C; c = index mod C in
     [r * C + (c - 1) mod C, r * C + (c + 1) mod C,
      (r - 1) mod R * C + c, (r - 1) mod R * C + (c - 1) mod C, (r - 1) mod R * C + (c + 1) mod C,
      (r + 1) mod R * C + c, (r + 1) mod R * C + (c - 1) mod C, (r + 1) mod R * C + (c + 1) mod C])"
proof -
  define R where "R = num_rows bounds"
  define C where "C = num_cols bounds"
  define r where "r = index div C"
  define c where "c = index mod C"
  have RC: "1 \<le> R" "R \<le> 1073741824" "1 \<le> C" "C \<le> 1073741824" "R * C \<le> INT_MAX"
    using assms(1) by (simp_all add: safe_bounds_def R_def C_def)
  have c: "0 \<le> c" "c < C" using RC by (simp_all add: c_def)
  have r0: "0 \<le> r" using RC assms(2) by (simp add: r_def pos_imp_zdiv_nonneg_iff)
  have "index < R * C" using assms(3) by (simp add: R_def C_def)
  then have r1: "r < R" using RC unfolding r_def by (intro div_less_rows) auto
  have col: "index smod C = c" and row: "index sdiv C = r"
    using assms(2) RC by (simp_all add: c_def r_def sdiv_nonneg smod_nonneg)
  have cl: "0 \<le> (c - 1) mod C" "(c - 1) mod C < C" and cr: "0 \<le> (c + 1) mod C" "(c + 1) mod C < C"
   and ru: "0 \<le> (r - 1) mod R" "(r - 1) mod R < R" and rl: "0 \<le> (r + 1) mod R" "(r + 1) mod R < R"
    using RC by simp_all
  note sr = step_right[OF c RC(4)] step_right[OF r0 r1 RC(2)]
  note sl = step_left[OF c RC(4)] step_left[OF r0 r1 RC(2)]
  have lower: "int32 (int32 ((r + 1) mod R * C) + c) = (r + 1) mod R * C + c"
    by (rule cell_int32[OF rl c RC(5)])
  have upper: "int32 (int32 ((r - 1) mod R * C) + c) = (r - 1) mod R * C + c"
    by (rule cell_int32[OF ru c RC(5)])
  note lp = cell_parts[OF rl c RC(5)]
  note up = cell_parts[OF ru c RC(5)]
  show ?thesis
    unfolding neighbor_indices_def Let_def R_def[symmetric] C_def[symmetric] col row
      r_def[symmetric] c_def[symmetric] sr sl lower upper lp up
    by (simp add: cell_int32[OF r0 r1 cl RC(5)] cell_int32[OF r0 r1 cr RC(5)]
         cell_int32[OF ru cl RC(5)] cell_int32[OF ru cr RC(5)]
         cell_int32[OF rl cl RC(5)] cell_int32[OF rl cr RC(5)])
qed


lemma neighbor_indices_in_grid:
  assumes "safe_bounds bounds" "0 \<le> index" "index < num_rows bounds * num_cols bounds"
    and "i \<in> set (neighbor_indices index bounds)"
  shows "0 \<le> i \<and> i < num_rows bounds * num_cols bounds"
proof -
  define R where "R = num_rows bounds"
  define C where "C = num_cols bounds"
  define r where "r = index div C"
  define c where "c = index mod C"
  have RC: "1 \<le> R" "1 \<le> C"
    using assms(1) by (simp_all add: safe_bounds_def R_def C_def)
  have c: "0 \<le> c" "c < C" using RC by (simp_all add: c_def)
  have r0: "0 \<le> r" using RC assms(2) by (simp add: r_def pos_imp_zdiv_nonneg_iff)
  have "index < R * C" using assms(3) by (simp add: R_def C_def)
  then have r1: "r < R" using RC unfolding r_def by (intro div_less_rows) auto
  have cl: "0 \<le> (c - 1) mod C" "(c - 1) mod C < C" and cr: "0 \<le> (c + 1) mod C" "(c + 1) mod C < C"
   and ru: "0 \<le> (r - 1) mod R" "(r - 1) mod R < R" and rl: "0 \<le> (r + 1) mod R" "(r + 1) mod R < R"
    using RC by simp_all
  have "i \<in> {r * C + (c - 1) mod C, r * C + (c + 1) mod C,
      (r - 1) mod R * C + c, (r - 1) mod R * C + (c - 1) mod C, (r - 1) mod R * C + (c + 1) mod C,
      (r + 1) mod R * C + c, (r + 1) mod R * C + (c - 1) mod C, (r + 1) mod R * C + (c + 1) mod C}"
    using assms(4) unfolding neighbor_indices_safe[OF assms(1-3)] Let_def
      R_def[symmetric] C_def[symmetric] r_def[symmetric] c_def[symmetric]
    by simp
  then show ?thesis
    unfolding R_def[symmetric] C_def[symmetric]
    using cell_bound[OF r0 r1 cl] cell_bound[OF r0 r1 cr]
      cell_bound[OF ru c] cell_bound[OF ru cl] cell_bound[OF ru cr]
      cell_bound[OF rl c] cell_bound[OF rl cl] cell_bound[OF rl cr]
    by auto
qed

lemma count_live_Some:
  assumes "\<forall>i \<in> set is. 0 \<le> i \<and> i < int (length earth)"
    and "0 \<le> n" "n + int (length is) \<le> INT_MAX"
  shows "count_live earth is n
           = Some (n + (\<Sum>i\<leftarrow>is. if earth ! nat i = CHR ''@'' then 1 else 0))"
  using assms
proof (induction "is" arbitrary: n)
  case Nil
  then show ?case by simp
next
  case (Cons i "is")
  have r: "rd earth i = Some (earth ! nat i)" using Cons.prems(1) by (simp add: rd_def)
  have n1: "int32 (n + 1) = n + 1"
    using Cons.prems(2,3) by (intro int32_id) (auto simp: INT_MIN_def)
  show ?case
  proof (cases "earth ! nat i = CHR ''@''")
    case True
    have "count_live earth is (n + 1)
            = Some (n + 1 + (\<Sum>i\<leftarrow>is. if earth ! nat i = CHR ''@'' then 1 else 0))"
      using Cons.prems by (intro Cons.IH) auto
    then show ?thesis using True by (simp add: r n1)
  next
    case False
    have "count_live earth is n
            = Some (n + (\<Sum>i\<leftarrow>is. if earth ! nat i = CHR ''@'' then 1 else 0))"
      using Cons.prems by (intro Cons.IH) auto
    then show ?thesis using False by (simp add: r)
  qed
qed

lemma length_filter_sum:
  "int (length (filter P xs)) = (\<Sum>x\<leftarrow>xs. if P x then 1 else 0)"
  by (induction xs) auto

lemma neighbors_safe:
  assumes "safe_bounds bounds" "0 \<le> index" "index < num_rows bounds * num_cols bounds"
    and "num_rows bounds * num_cols bounds \<le> int (length earth)"
  shows "neighbors earth index bounds
           = Some (torus_count earth (num_rows bounds) (num_cols bounds) index)"
proof -
  have nz: "num_cols bounds \<noteq> 0" "num_rows bounds \<noteq> 0"
    using assms(1) by (auto simp: safe_bounds_def)
  have inb: "\<forall>i \<in> set (neighbor_indices index bounds). 0 \<le> i \<and> i < int (length earth)"
    using neighbor_indices_in_grid[OF assms(1-3)] assms(4) by fastforce
  have len: "length (neighbor_indices index bounds) = 8"
    by (simp add: neighbor_indices_def Let_def)
  have "count_live earth (neighbor_indices index bounds) 0
          = Some (0 + (\<Sum>i\<leftarrow>neighbor_indices index bounds. if earth ! nat i = CHR ''@'' then 1 else 0))"
    using inb len by (intro count_live_Some) (auto simp: INT_MAX_def)
  also have "(\<Sum>i\<leftarrow>neighbor_indices index bounds. if earth ! nat i = CHR ''@'' then 1 else 0)
          = torus_count earth (num_rows bounds) (num_cols bounds) index"
  proof -
    have "index div num_cols bounds < num_rows bounds"
      using assms(1,3) by (intro div_less_rows) (auto simp: safe_bounds_def)
    moreover have "0 \<le> index div num_cols bounds"
      using assms(1,2) by (simp add: safe_bounds_def pos_imp_zdiv_nonneg_iff)
    ultimately have same_row: "index div num_cols bounds mod num_rows bounds = index div num_cols bounds"
      by simp
    show ?thesis
      unfolding neighbor_indices_safe[OF assms(1-3)] torus_count_def length_filter_sum
        torus_neighbours_def Let_def
      by (simp add: alive_at_def same_row ac_simps split del: if_split)
  qed
  finally show ?thesis using nz by (simp add: neighbors_def)
qed

lemma torus_count_range: "0 \<le> torus_count earth R C index \<and> torus_count earth R C index \<le> 8"
proof -
  have "length (filter (alive_at earth C) (torus_neighbours R C (index div C) (index mod C)))
          \<le> length (torus_neighbours R C (index div C) (index mod C))"
    by (rule length_filter_le)
  then show ?thesis by (simp add: torus_count_def torus_neighbours_def)
qed

text \<open>
  Claim C10, as stated, fails: \<^verbatim>\<open>(col - 1) + num_cols\<close> and \<^verbatim>\<open>(row - 1) + num_rows\<close>
  exceed \<^verbatim>\<open>INT_MAX\<close> on a board with more than \<open>2\<^sup>3\<^sup>0\<close> columns or rows. On one row of
  \<open>2\<^sup>3\<^sup>0 + 1\<close> cells, at the last index \<open>2\<^sup>3\<^sup>0\<close>, the sum is \<open>2\<^sup>3\<^sup>1\<close>, the register
  holds \<open>- 2\<^sup>3\<^sup>1\<close>, and the three left neighbours get the index \<open>- (2\<^sup>3\<^sup>0 - 1)\<close>, in front
  of the board.
\<close>

theorem neighbor_index_negative_on_wide_board:
  "0 \<le> (1073741824::int)
   \<and> 1073741824 < num_rows \<lparr>num_rows = 1, num_cols = 1073741825, iterations = 1, init_pairs = 0\<rparr>
                     * num_cols \<lparr>num_rows = 1, num_cols = 1073741825, iterations = 1, init_pairs = 0\<rparr>
   \<and> neighbor_indices 1073741824
         \<lparr>num_rows = 1, num_cols = 1073741825, iterations = 1, init_pairs = 0\<rparr>
       = [- 1073741823, 0, 1073741824, - 1073741823, 0, 1073741824, - 1073741823, 0]
   \<and> neighbors (replicate 1073741825 CHR ''-'') 1073741824
         \<lparr>num_rows = 1, num_cols = 1073741825, iterations = 1, init_pairs = 0\<rparr> = None"
  by (simp add: neighbor_indices_def neighbors_def int32_def rd_def
        signed_modulo_int_def signed_divide_int_def)

text \<open>
  Claim C10, amended: on a board of at most \<open>2\<^sup>3\<^sup>0\<close> rows and at most \<open>2\<^sup>3\<^sup>0\<close> columns whose
  number of cells is an \<^verbatim>\<open>int\<close>, at every index in \<open>[0, rows * cols)\<close>, each of the eight
  indices that \<^verbatim>\<open>neighbors\<close> computes lies in \<open>[0, rows * cols)\<close>, and on a buffer that
  holds the board \<^verbatim>\<open>neighbors\<close> returns a count.
\<close>

theorem neighbor_indices_in_bounds:
  assumes "safe_bounds bounds" "0 \<le> index" "index < num_rows bounds * num_cols bounds"
    and "num_rows bounds * num_cols bounds \<le> int (length earth)"
  shows "(\<forall>i \<in> set (neighbor_indices index bounds).
            0 \<le> i \<and> i < num_rows bounds * num_cols bounds)
       \<and> length (neighbor_indices index bounds) = 8
       \<and> (\<exists>n. neighbors earth index bounds = Some n)"
  using neighbor_indices_in_grid[OF assms(1-3)] neighbors_safe[OF assms]
  by (simp add: neighbor_indices_def Let_def)

theorem neighbor_indices_in_bounds_witness:
  "safe_bounds \<lparr>num_rows = 5, num_cols = 5, iterations = 2, init_pairs = 3\<rparr>
   \<and> neighbor_indices 0 \<lparr>num_rows = 5, num_cols = 5, iterations = 2, init_pairs = 3\<rparr>
       = [4, 1, 20, 24, 21, 5, 9, 6]
   \<and> neighbors ''-----------@@@-----------'' 0
         \<lparr>num_rows = 5, num_cols = 5, iterations = 2, init_pairs = 3\<rparr> = Some 0"
proof -
  have s: "safe_bounds \<lparr>num_rows = 5, num_cols = 5, iterations = 2, init_pairs = 3\<rparr>"
    by code_simp
  have i: "neighbor_indices 0 \<lparr>num_rows = 5, num_cols = 5, iterations = 2, init_pairs = 3\<rparr>
             = [4, 1, 20, 24, 21, 5, 9, 6]"
    by code_simp
  have n: "neighbors ''-----------@@@-----------'' 0
             \<lparr>num_rows = 5, num_cols = 5, iterations = 2, init_pairs = 3\<rparr> = Some 0"
    by code_simp
  show ?thesis
    using neighbor_indices_in_bounds
      [of "\<lparr>num_rows = 5, num_cols = 5, iterations = 2, init_pairs = 3\<rparr>" 0
          "''-----------@@@-----------''"] s i n
    by simp
qed

text \<open>
  Claim C2, as stated, fails, by the same overflow. On one row of \<open>2\<^sup>3\<^sup>1 - 1\<close> cells of which
  only cell 0 is alive, the cell at index 3 has the dead cells 2 and 4 as its neighbours
  on the torus, three times each: the count of the claim is 0. \<^verbatim>\<open>neighbors\<close> computes
  \<open>(3 - 1) + (2\<^sup>3\<^sup>1 - 1)\<close>, which wraps to \<open>- (2\<^sup>3\<^sup>1 - 1)\<close>, takes index 0 for the left
  neighbour, and returns 3.
\<close>

theorem neighbors_miscounts_on_wide_board:
  "neighbors ((replicate 2147483647 CHR ''-'')[0 := CHR ''@'']) 3
         \<lparr>num_rows = 1, num_cols = 2147483647, iterations = 1, init_pairs = 1\<rparr> = Some 3
   \<and> torus_count ((replicate 2147483647 CHR ''-'')[0 := CHR ''@'']) 1 2147483647 3 = 0"
  by (simp add: neighbor_indices_def neighbors_def int32_def rd_def
        signed_modulo_int_def signed_divide_int_def
        torus_count_def torus_neighbours_def alive_at_def)

text \<open>
  Claim C2, amended: on a board of at most \<open>2\<^sup>3\<^sup>0\<close> rows and at most \<open>2\<^sup>3\<^sup>0\<close> columns whose
  number of cells is an \<^verbatim>\<open>int\<close>, at every index in \<open>[0, rows * cols)\<close>, \<^verbatim>\<open>neighbors\<close>
  returns the number of live cells among \<open>((r + dr) mod rows, (c + dc) mod cols)\<close> for the
  eight \<open>(dr, dc) \<noteq> (0, 0)\<close>, each counted as often as it occurs, and the count lies in
  \<open>[0, 8]\<close>. On the board of one live cell the count is 8.
\<close>

theorem neighbors_counts_torus:
  assumes "safe_bounds bounds" "0 \<le> index" "index < num_rows bounds * num_cols bounds"
    and "num_rows bounds * num_cols bounds \<le> int (length earth)"
  shows "neighbors earth index bounds
           = Some (torus_count earth (num_rows bounds) (num_cols bounds) index)
       \<and> 0 \<le> torus_count earth (num_rows bounds) (num_cols bounds) index
       \<and> torus_count earth (num_rows bounds) (num_cols bounds) index \<le> 8"
  using neighbors_safe[OF assms] torus_count_range by simp

theorem neighbors_counts_torus_witness:
  "safe_bounds \<lparr>num_rows = 1, num_cols = 1, iterations = 1, init_pairs = 1\<rparr>
   \<and> neighbors ''@'' 0 \<lparr>num_rows = 1, num_cols = 1, iterations = 1, init_pairs = 1\<rparr> = Some 8
   \<and> torus_count ''@'' 1 1 0 = 8"
proof -
  have s: "safe_bounds \<lparr>num_rows = 1, num_cols = 1, iterations = 1, init_pairs = 1\<rparr>"
    by code_simp
  have t: "torus_count ''@'' 1 1 0 = 8"
    by code_simp
  show ?thesis
    using neighbors_counts_torus
      [of "\<lparr>num_rows = 1, num_cols = 1, iterations = 1, init_pairs = 1\<rparr>" 0 "''@''"] s t
    by simp
qed

section \<open>The two loops of \<^verbatim>\<open>simulateLife\<close>, and a generation of the pool\<close>

lemma int32_id_nonneg: "0 \<le> x \<Longrightarrow> x \<le> INT_MAX \<Longrightarrow> int32 x = x"
  by (rule int32_id) (simp_all add: INT_MIN_def)

lemma range_start_eq:
  assumes "valid_bounds b" "valid_thread b td"
  shows "range_start td b = row_start td * num_cols b"
    and "0 \<le> range_start td b"
proof -
  have M: "num_rows b * num_cols b \<le> INT_MAX" using assms(1) by (simp add: valid_bounds_def)
  have p: "0 \<le> row_start td * num_cols b"
    using assms by (simp add: valid_bounds_def valid_thread_def)
  have "row_start td * num_cols b \<le> num_rows b * num_cols b"
    using assms by (intro mult_right_mono) (auto simp: valid_bounds_def valid_thread_def)
  then have "row_start td * num_cols b \<le> INT_MAX" using M by linarith
  with p show e: "range_start td b = row_start td * num_cols b"
    unfolding range_start_def by (rule int32_id_nonneg)
  show "0 \<le> range_start td b" using p e by simp
qed

lemma range_end_eq:
  assumes "valid_bounds b" "valid_thread b td"
  shows "int32 (range_end td b + 1) = (row_end td + 1) * num_cols b"
    and "(row_end td + 1) * num_cols b \<le> num_rows b * num_cols b"
proof -
  let ?C = "num_cols b"
  have C: "1 \<le> ?C" and M: "num_rows b * ?C \<le> INT_MAX"
    using assms(1) by (auto simp: valid_bounds_def)
  have re: "0 \<le> row_end td" "row_end td < num_rows b"
    using assms(2) by (auto simp: valid_thread_def)
  show le: "(row_end td + 1) * ?C \<le> num_rows b * ?C"
    using re C by (intro mult_right_mono) auto
  have p0: "0 \<le> row_end td * ?C" using re C by simp
  have e: "(row_end td + 1) * ?C = row_end td * ?C + ?C" by (simp add: algebra_simps)
  have u: "row_end td * ?C + ?C \<le> INT_MAX" using le M unfolding e by linarith
  have a: "int32 (row_end td * ?C) = row_end td * ?C"
    using p0 u C by (intro int32_id_nonneg) linarith+
  have b: "int32 (row_end td * ?C + ?C) = row_end td * ?C + ?C"
    using p0 u C by (intro int32_id_nonneg) linarith+
  have c: "int32 (row_end td * ?C + ?C - 1) = row_end td * ?C + ?C - 1"
    using p0 u C by (intro int32_id_nonneg) linarith+
  have d: "int32 (row_end td * ?C + ?C - 1 + 1) = row_end td * ?C + ?C"
    using b by simp
  show "int32 (range_end td b + 1) = (row_end td + 1) * ?C"
    unfolding range_end_def a b c d e ..
qed

lemma apply_loop_spec:
  assumes "0 \<le> j" "int32 (end + 1) \<le> int (length change)" "int32 (end + 1) \<le> int (length earth)"
  shows "\<exists>earth'. apply_loop change end j earth = Some earth' \<and> length earth' = length earth
           \<and> (\<forall>k < length earth. earth' ! k =
                 (if j \<le> int k \<and> int k < int32 (end + 1) then apply_mark (change ! k) (earth ! k)
                  else earth ! k))"
  using assms
proof (induction change "end" j earth rule: apply_loop.induct)
  case (1 change "end" j earth)
  let ?E = "int32 (end + 1)"
  show ?case
  proof (cases "j < ?E")
    case False
    then show ?thesis by (subst apply_loop.simps) auto
  next
    case True
    define m where "m = change ! nat j"
    define e1 where "e1 = (if m = - 1 then earth[nat j := CHR ''-'']
                           else if m = - 2 then earth[nat j := CHR ''@''] else earth)"
    have r: "rd change j = Some m" using True "1.prems" by (simp add: rd_def m_def)
    have w: "(if m = - 1 then wr earth j CHR ''-''
              else if m = - 2 then wr earth j CHR ''@'' else Some earth) = Some e1"
      using True "1.prems" by (simp add: wr_def e1_def)
    have l1: "length e1 = length earth" by (simp add: e1_def)
    have e1k: "e1 ! k = (if int k = j then apply_mark (change ! k) (earth ! k) else earth ! k)"
      if "k < length earth" for k
    proof (cases "int k = j")
      case True
      then have "nat j = k" by simp
      then show ?thesis using that True by (simp add: e1_def apply_mark_def m_def)
    next
      case False
      then have "nat j \<noteq> k" using "1.prems"(1) by auto
      then show ?thesis using False by (simp add: e1_def)
    qed
    have step: "apply_loop change end j earth = apply_loop change end (j + 1) e1"
      using True by (subst apply_loop.simps) (simp add: r w)
    have "\<exists>earth'. apply_loop change end (j + 1) e1 = Some earth' \<and> length earth' = length e1
           \<and> (\<forall>k < length e1. earth' ! k =
                 (if j + 1 \<le> int k \<and> int k < ?E then apply_mark (change ! k) (e1 ! k)
                  else e1 ! k))"
      using "1.prems" True l1 by (intro "1.IH"[OF True r w]) auto
    then obtain earth' where
      e': "apply_loop change end (j + 1) e1 = Some earth'" "length earth' = length e1"
          "\<forall>k < length e1. earth' ! k =
                 (if j + 1 \<le> int k \<and> int k < ?E then apply_mark (change ! k) (e1 ! k)
                  else e1 ! k)"
      by blast
    have "earth' ! k = (if j \<le> int k \<and> int k < ?E then apply_mark (change ! k) (earth ! k)
                  else earth ! k)" if "k < length earth" for k
      using e'(3) e1k[OF that] that l1 True by auto
    then show ?thesis using step e' l1 by auto
  qed
qed


lemma decide_loop_unfold:
  "decide_loop earth b end i change =
     (if i < int32 (end + 1) then
        do { m \<leftarrow> mark_of earth b i;
             change2 \<leftarrow> (if m = 0 then Some change else wr change i m);
             decide_loop earth b end (i + 1) change2 }
      else Some change)"
  by (subst decide_loop.simps) (auto simp: mark_of_def split: Option.bind_splits)

lemma decide_loop_Some:
  assumes "0 \<le> i" "int32 (end + 1) \<le> int (length change)"
    and "\<forall>k. i \<le> k \<and> k < int32 (end + 1) \<longrightarrow> mark_of earth b k \<noteq> None"
  shows "\<exists>ch. decide_loop earth b end i change = Some ch \<and> length ch = length change
           \<and> (\<forall>k < length change. ch ! k =
                 (if i \<le> int k \<and> int k < int32 (end + 1) \<and> the (mark_of earth b (int k)) \<noteq> 0
                  then the (mark_of earth b (int k)) else change ! k))"
  using assms
proof (induction "nat (int32 (end + 1) - i)" arbitrary: i change)
  case 0
  then have "\<not> i < int32 (end + 1)" by simp
  then show ?case by (subst decide_loop_unfold) auto
next
  case (Suc n)
  let ?E = "int32 (end + 1)"
  from Suc.hyps(2) have lt: "i < ?E" by linarith
  from Suc.prems(3) lt Suc.prems(1) obtain m where m: "mark_of earth b i = Some m"
    by (metis not_None_eq order_refl)
  define c1 where "c1 = (if m = 0 then change else change[nat i := m])"
  have w: "(if m = 0 then Some change else wr change i m) = Some c1"
    using lt Suc.prems(1,2) by (simp add: wr_def c1_def)
  have l1: "length c1 = length change" by (simp add: c1_def)
  have step: "decide_loop earth b end i change = decide_loop earth b end (i + 1) c1"
    using lt by (subst decide_loop_unfold) (simp add: m w)
  have c1k: "c1 ! k = (if int k = i \<and> m \<noteq> 0 then m else change ! k)" if "k < length change" for k
  proof (cases "int k = i")
    case True
    then have "nat i = k" by simp
    then show ?thesis using that True by (simp add: c1_def)
  next
    case False
    then have "nat i \<noteq> k" using Suc.prems(1) by auto
    then show ?thesis using False by (simp add: c1_def)
  qed
  have "\<exists>ch. decide_loop earth b end (i + 1) c1 = Some ch \<and> length ch = length c1
           \<and> (\<forall>k < length c1. ch ! k =
                 (if i + 1 \<le> int k \<and> int k < ?E \<and> the (mark_of earth b (int k)) \<noteq> 0
                  then the (mark_of earth b (int k)) else c1 ! k))"
    using Suc.hyps(2) Suc.prems l1 by (intro Suc.hyps(1)) auto
  then obtain ch where
    ch: "decide_loop earth b end (i + 1) c1 = Some ch" "length ch = length c1"
        "\<forall>k < length c1. ch ! k =
                 (if i + 1 \<le> int k \<and> int k < ?E \<and> the (mark_of earth b (int k)) \<noteq> 0
                  then the (mark_of earth b (int k)) else c1 ! k)"
    by blast
  have "ch ! k = (if i \<le> int k \<and> int k < ?E \<and> the (mark_of earth b (int k)) \<noteq> 0
                  then the (mark_of earth b (int k)) else change ! k)" if "k < length change" for k
  proof (cases "int k = i")
    case True
    then show ?thesis using ch(3) c1k[OF that] that l1 lt m by simp
  next
    case False
    then have "(i + 1 \<le> int k) = (i \<le> int k)" by linarith
    then show ?thesis using ch(3) c1k[OF that] that l1 False by simp
  qed
  then show ?case using step ch l1 by auto
qed

lemma decide_loop_None:
  assumes "0 \<le> i" "i \<le> k" "k < int32 (end + 1)" "int32 (end + 1) \<le> int (length change)"
    and "mark_of earth b k = None"
  shows "decide_loop earth b end i change = None"
  using assms
proof (induction "nat (k - i)" arbitrary: i change)
  case 0
  then have "i = k" by simp
  then show ?case using "0.prems" by (subst decide_loop_unfold) simp
next
  case (Suc n)
  then have lt: "i < k" "i < int32 (end + 1)" by linarith+
  show ?case
  proof (cases "mark_of earth b i")
    case None
    then show ?thesis using lt by (subst decide_loop_unfold) simp
  next
    case (Some m)
    define c1 where "c1 = (if m = 0 then change else change[nat i := m])"
    have w: "(if m = 0 then Some change else wr change i m) = Some c1"
      using lt Suc.prems by (simp add: wr_def c1_def)
    have l1: "length c1 = length change" by (simp add: c1_def)
    have "decide_loop earth b end (i + 1) c1 = None"
      using Suc.hyps(2) Suc.prems lt l1 by (intro Suc.hyps(1)) auto
    then show ?thesis using lt by (subst decide_loop_unfold) (simp add: Some w)
  qed
qed


lemma in_range_bounds:
  assumes "valid_bounds b" "valid_thread b td" "in_range b td k"
  shows "0 \<le> k" "k < num_rows b * num_cols b"
proof -
  have "0 \<le> row_start td * num_cols b"
    using assms(1,2) by (simp add: valid_bounds_def valid_thread_def)
  then show "0 \<le> k" using assms(3) by (simp add: in_range_def)
  show "k < num_rows b * num_cols b"
    using range_end_eq(2)[OF assms(1,2)] assms(3) by (simp add: in_range_def)
qed

lemma new_change_length:
  assumes "valid_bounds b"
  shows "int (length (new_change b)) = num_rows b * num_cols b"
proof -
  have "0 \<le> num_rows b * num_cols b" using assms by (simp add: valid_bounds_def)
  moreover from this have "int32 (num_rows b * num_cols b) = num_rows b * num_cols b"
    using assms by (intro int32_id_nonneg) (auto simp: valid_bounds_def)
  ultimately show ?thesis by (simp add: new_change_def)
qed

lemma simulateLife_decide_Some:
  assumes "valid_bounds b" "valid_thread b td"
    and "\<forall>k. in_range b td k \<longrightarrow> mark_of earth b k \<noteq> None"
  shows "\<exists>ch. simulateLife_decide earth b td = Some ch
           \<and> int (length ch) = num_rows b * num_cols b
           \<and> (\<forall>k. in_range b td k \<longrightarrow> ch ! nat k = the (mark_of earth b k))"
proof -
  let ?E = "int32 (range_end td b + 1)"
  note E = range_end_eq[OF assms(1,2)]
  note S = range_start_eq[OF assms(1,2)]
  note L = new_change_length[OF assms(1)]
  have inr: "in_range b td k \<longleftrightarrow> range_start td b \<le> k \<and> k < ?E" for k
    by (simp add: in_range_def E(1) S(1))
  have "\<exists>ch. decide_loop earth b (range_end td b) (range_start td b) (new_change b) = Some ch
           \<and> length ch = length (new_change b)
           \<and> (\<forall>k < length (new_change b). ch ! k =
                 (if range_start td b \<le> int k \<and> int k < ?E \<and> the (mark_of earth b (int k)) \<noteq> 0
                  then the (mark_of earth b (int k)) else new_change b ! k))"
    using S(2) E L assms(3) by (intro decide_loop_Some) (auto simp: inr)
  then obtain ch where
    ch: "decide_loop earth b (range_end td b) (range_start td b) (new_change b) = Some ch"
        "length ch = length (new_change b)"
        "\<forall>k < length (new_change b). ch ! k =
                 (if range_start td b \<le> int k \<and> int k < ?E \<and> the (mark_of earth b (int k)) \<noteq> 0
                  then the (mark_of earth b (int k)) else new_change b ! k)"
    by blast
  have "ch ! nat k = the (mark_of earth b k)" if "in_range b td k" for k
  proof -
    have k: "0 \<le> k" "k < num_rows b * num_cols b" using in_range_bounds[OF assms(1,2) that] by auto
    then have lt: "nat k < length (new_change b)" using L by linarith
    have z: "new_change b ! nat k = 0" using lt by (simp add: new_change_def)
    show ?thesis using ch(3) lt that k z by (auto simp: inr)
  qed
  then show ?thesis using ch L by (auto simp: simulateLife_decide_def)
qed

lemma simulateLife_decide_None:
  assumes "valid_bounds b" "valid_thread b td" "in_range b td k" "mark_of earth b k = None"
  shows "simulateLife_decide earth b td = None"
proof -
  note E = range_end_eq[OF assms(1,2)]
  note S = range_start_eq[OF assms(1,2)]
  note L = new_change_length[OF assms(1)]
  show ?thesis
    unfolding simulateLife_decide_def
    using S E L assms(3,4)
    by (intro decide_loop_None[where k = k]) (auto simp: in_range_def)
qed

lemma simulateLife_apply_spec:
  assumes "valid_bounds b" "valid_thread b td"
    and "int (length change) = num_rows b * num_cols b"
    and "num_rows b * num_cols b \<le> int (length earth)"
  shows "\<exists>earth'. simulateLife_apply change b td earth = Some earth'
           \<and> length earth' = length earth
           \<and> (\<forall>k < length earth. earth' ! k =
                 (if in_range b td (int k) then apply_mark (change ! k) (earth ! k)
                  else earth ! k))"
proof -
  note E = range_end_eq[OF assms(1,2)]
  note S = range_start_eq[OF assms(1,2)]
  show ?thesis
    unfolding simulateLife_apply_def in_range_def E(1)[symmetric] S(1)[symmetric]
    using S(2) E assms(3,4) by (intro apply_loop_spec) auto
qed


lemma decide_all_Some:
  assumes "valid_bounds b" "\<forall>td \<in> set tds. valid_thread b td"
    and "\<forall>td \<in> set tds. \<forall>k. in_range b td k \<longrightarrow> mark_of earth b k \<noteq> None"
  shows "\<exists>chs. decide_all earth b tds = Some chs
           \<and> list_all2 (\<lambda>td ch. int (length ch) = num_rows b * num_cols b
                   \<and> (\<forall>k. in_range b td k \<longrightarrow> ch ! nat k = the (mark_of earth b k))) tds chs"
  using assms(2,3)
proof (induction tds)
  case Nil
  then show ?case by simp
next
  case (Cons td tds)
  from Cons.prems have "valid_thread b td"
    "\<forall>k. in_range b td k \<longrightarrow> mark_of earth b k \<noteq> None" by auto
  from simulateLife_decide_Some[OF assms(1) this] obtain ch where
    ch: "simulateLife_decide earth b td = Some ch" "int (length ch) = num_rows b * num_cols b"
        "\<forall>k. in_range b td k \<longrightarrow> ch ! nat k = the (mark_of earth b k)"
    by blast
  from Cons.IH Cons.prems obtain chs where
    chs: "decide_all earth b tds = Some chs"
         "list_all2 (\<lambda>td ch. int (length ch) = num_rows b * num_cols b
                   \<and> (\<forall>k. in_range b td k \<longrightarrow> ch ! nat k = the (mark_of earth b k))) tds chs"
    by auto
  show ?case using ch chs by simp
qed

lemma decide_all_None:
  assumes "valid_bounds b" "\<forall>td \<in> set tds. valid_thread b td"
    and "td \<in> set tds" "in_range b td k" "mark_of earth b k = None"
  shows "decide_all earth b tds = None"
  using assms(2,3)
proof (induction tds)
  case Nil
  then show ?case by simp
next
  case (Cons t tds)
  show ?case
  proof (cases "t = td")
    case True
    then have "simulateLife_decide earth b t = None"
      using simulateLife_decide_None[OF assms(1) _ assms(4,5)] Cons.prems by simp
    then show ?thesis by simp
  next
    case False
    then have "decide_all earth b tds = None" using Cons by auto
    then show ?thesis by (simp split: Option.bind_split)
  qed
qed

lemma ranges_disjoint:
  assumes "valid_bounds b" "row_end a < row_start c" "in_range b a k"
  shows "\<not> in_range b c k"
proof -
  have "(row_end a + 1) * num_cols b \<le> row_start c * num_cols b"
    using assms(1,2) by (intro mult_right_mono) (auto simp: valid_bounds_def)
  then show ?thesis using assms(3) by (auto simp: in_range_def)
qed

lemma apply_all_spec:
  assumes "valid_bounds b" "num_rows b * num_cols b \<le> int (length earth)"
    and "list_all2 (\<lambda>td ch. int (length ch) = num_rows b * num_cols b
                   \<and> (\<forall>k. in_range b td k \<longrightarrow> ch ! nat k = mk k)) tds chs"
    and "\<forall>td \<in> set tds. valid_thread b td"
    and "sorted_wrt (\<lambda>a c. row_end a < row_start c) tds"
  shows "\<exists>earth'. apply_all b tds chs earth = Some earth' \<and> length earth' = length earth
           \<and> (\<forall>k < length earth. earth' ! k =
                 (if \<exists>td \<in> set tds. in_range b td (int k) then apply_mark (mk (int k)) (earth ! k)
                  else earth ! k))"
  using assms(3,2,4,5)
proof (induction tds chs arbitrary: earth rule: list_all2_induct)
  case Nil
  then show ?case by simp
next
  case (Cons td tds ch chs)
  have vt: "valid_thread b td" using Cons.prems by simp
  from Cons.hyps(1) have len: "int (length ch) = num_rows b * num_cols b"
    and mk: "\<forall>k. in_range b td k \<longrightarrow> ch ! nat k = mk k" by auto
  from simulateLife_apply_spec[OF assms(1) vt len Cons.prems(1)] obtain e1 where
    e1: "simulateLife_apply ch b td earth = Some e1" "length e1 = length earth"
        "\<forall>k < length earth. e1 ! k =
                 (if in_range b td (int k) then apply_mark (ch ! k) (earth ! k) else earth ! k)"
    by blast
  have "\<exists>earth'. apply_all b tds chs e1 = Some earth' \<and> length earth' = length e1
           \<and> (\<forall>k < length e1. earth' ! k =
                 (if \<exists>td \<in> set tds. in_range b td (int k) then apply_mark (mk (int k)) (e1 ! k)
                  else e1 ! k))"
    using Cons.prems e1(2) by (intro Cons.IH) auto
  then obtain earth' where
    e': "apply_all b tds chs e1 = Some earth'" "length earth' = length e1"
        "\<forall>k < length e1. earth' ! k =
                 (if \<exists>td \<in> set tds. in_range b td (int k) then apply_mark (mk (int k)) (e1 ! k)
                  else e1 ! k)"
    by blast
  have "earth' ! k = (if \<exists>t \<in> set (td # tds). in_range b t (int k)
                      then apply_mark (mk (int k)) (earth ! k) else earth ! k)"
    if k: "k < length earth" for k
  proof (cases "in_range b td (int k)")
    case True
    have "\<not> in_range b t (int k)" if "t \<in> set tds" for t
      using ranges_disjoint[OF assms(1) _ True, of t] Cons.prems(3) that by auto
    then have "earth' ! k = e1 ! k" using e'(3) k e1(2) by auto
    also have "\<dots> = apply_mark (ch ! k) (earth ! k)" using e1(3) k True by simp
    also have "ch ! k = mk (int k)" using mk True by fastforce
    finally show ?thesis using True by simp
  next
    case False
    then have "e1 ! k = earth ! k" using e1(3) k by simp
    then show ?thesis using e'(3) k e1(2) False by simp
  qed
  then show ?case using e1 e' by simp
qed

lemma generation_Some:
  assumes "valid_bounds b" "num_rows b * num_cols b \<le> int (length earth)"
    and "\<forall>td \<in> set tds. valid_thread b td"
    and "sorted_wrt (\<lambda>a c. row_end a < row_start c) tds"
    and "\<forall>td \<in> set tds. \<forall>k. in_range b td k \<longrightarrow> mark_of earth b k \<noteq> None"
  shows "\<exists>earth'. generation b tds earth = Some earth' \<and> length earth' = length earth
           \<and> (\<forall>k < length earth. earth' ! k =
                 (if \<exists>td \<in> set tds. in_range b td (int k)
                  then apply_mark (the (mark_of earth b (int k))) (earth ! k)
                  else earth ! k))"
proof -
  from decide_all_Some[OF assms(1,3,5)] obtain chs where
    chs: "decide_all earth b tds = Some chs"
         "list_all2 (\<lambda>td ch. int (length ch) = num_rows b * num_cols b
                   \<and> (\<forall>k. in_range b td k \<longrightarrow> ch ! nat k = the (mark_of earth b k))) tds chs"
    by blast
  from apply_all_spec[OF assms(1,2) chs(2) assms(3,4)] chs(1)
  show ?thesis by (simp add: generation_def)
qed

lemma generation_None:
  assumes "valid_bounds b" "\<forall>td \<in> set tds. valid_thread b td"
    and "td \<in> set tds" "in_range b td k" "mark_of earth b k = None"
  shows "generation b tds earth = None"
  using decide_all_None[OF assms] by (simp add: generation_def)


lemma valid_bounds_rows:
  assumes "valid_bounds b"
  shows "num_rows b \<le> INT_MAX"
proof -
  have R: "0 \<le> num_rows b" and C: "1 \<le> num_cols b" and M: "num_rows b * num_cols b \<le> INT_MAX"
    using assms by (auto simp: valid_bounds_def)
  have "num_rows b * 1 \<le> num_rows b * num_cols b"
    using R C by (rule mult_left_mono[rotated])
  then show ?thesis using M by linarith
qed

lemma partition_rows_closed:
  assumes "valid_bounds b" "partition_rows b W p v = Some tds"
  shows "tds = map (part_thread b W p v) [0 .. W - 1]" "1 \<le> W" "W \<le> num_rows b"
proof -
  show W: "1 \<le> W" "W \<le> num_rows b"
    using assms(2) by (auto simp: partition_rows_def split: if_splits)
  have "init_thread_data b W p v 0 [] = [] @ map (part_thread b W p v) [0 .. W - 1]"
    using W valid_bounds_rows[OF assms(1)] by (intro init_thread_data_closed) auto
  then show "tds = map (part_thread b W p v) [0 .. W - 1]"
    using assms(2) W by (simp add: partition_rows_def)
qed

section \<open>A generation on the partition of \<^verbatim>\<open>main\<close>\<close>

lemma partition_valid:
  assumes "valid_bounds b" "partition_rows b W p v = Some tds"
  shows "\<forall>td \<in> set tds. valid_thread b td"
proof
  fix td assume "td \<in> set tds"
  note P = partition_rows_closed[OF assms]
  let ?ps = "part_start (num_rows b) W"
  have W: "0 < W" "0 \<le> num_rows b" using P(2) assms(1) by (auto simp: valid_bounds_def)
  from \<open>td \<in> set tds\<close> obtain j where j: "0 \<le> j" "j \<le> W - 1" "td = part_thread b W p v j"
    unfolding P(1) by auto
  have a: "0 \<le> ?ps j" using part_start_bounds(1)[OF W, of j] j by auto
  have c: "?ps (j + 1) \<le> num_rows b" using part_start_bounds(2)[OF W, of "j + 1"] j by auto
  have d: "?ps j < ?ps (j + 1)" using part_start_strict[OF W(1) P(3), of j "j + 1"] by simp
  show "valid_thread b td" using a c d by (simp add: valid_thread_def j(3) part_thread_def)
qed

lemma partition_sorted:
  assumes "valid_bounds b" "partition_rows b W p v = Some tds"
  shows "sorted_wrt (\<lambda>a c. row_end a < row_start c) tds"
proof -
  note P = partition_rows_closed[OF assms]
  have W: "0 < W" "0 \<le> num_rows b" using P(2) assms(1) by (auto simp: valid_bounds_def)
  have "row_end (part_thread b W p v i) < row_start (part_thread b W p v j)" if "i < j" for i j
  proof -
    have "part_start (num_rows b) W (i + 1) \<le> part_start (num_rows b) W j"
      using that by (intro part_start_mono[OF W]) auto
    then show ?thesis by (simp add: part_thread_def)
  qed
  then have "sorted_wrt (\<lambda>i j. row_end (part_thread b W p v i) < row_start (part_thread b W p v j))
               [0 .. W - 1]"
    using sorted_wrt_mono_rel[of "[0 .. W - 1]" "(<)"] by auto
  then show ?thesis unfolding P(1) by (simp add: sorted_wrt_map)
qed


lemma partition_cover:
  assumes "valid_bounds b" "partition_rows b W p v = Some tds"
    and "0 \<le> k" "k < num_rows b * num_cols b"
  shows "\<exists>td \<in> set tds. in_range b td k"
proof -
  note P = partition_rows_closed[OF assms(1,2)]
  let ?C = "num_cols b"
  let ?ps = "part_start (num_rows b) W"
  have C: "0 < ?C" using assms(1) by (simp add: valid_bounds_def)
  have W: "0 < W" "0 \<le> num_rows b" using P(2) assms(1) by (auto simp: valid_bounds_def)
  define r where "r = k div ?C"
  have r: "0 \<le> r" "r < num_rows b"
    using assms(3,4) C div_less_rows[OF C assms(4)] by (simp_all add: r_def pos_imp_zdiv_nonneg_iff)
  have "r < ?ps (int (nat W))" using r W by (simp add: part_start_W)
  from part_start_covers[OF W r(1) this] obtain j where
    j: "j < nat W" "?ps (int j) \<le> r" "r < ?ps (int j + 1)" by auto
  have k1: "r * ?C \<le> k" and k2: "k < (r + 1) * ?C"
  proof -
    have e: "k = r * ?C + k mod ?C" by (simp add: r_def)
    have "0 \<le> k mod ?C" "k mod ?C < ?C" using C by simp_all
    then show "r * ?C \<le> k" "k < (r + 1) * ?C" using e by (simp_all add: algebra_simps)
  qed
  have "?ps (int j) * ?C \<le> r * ?C" using j(2) C by (intro mult_right_mono) auto
  moreover have "(r + 1) * ?C \<le> ?ps (int j + 1) * ?C" using j(3) C by (intro mult_right_mono) auto
  ultimately have "in_range b (part_thread b W p v (int j)) k"
    using k1 k2 by (simp add: in_range_def part_thread_def)
  moreover have "part_thread b W p v (int j) \<in> set tds"
    unfolding P(1) using j(1) by auto
  ultimately show ?thesis by blast
qed


lemma partition_report:
  assumes "valid_bounds b" "partition_rows b W p v = Some tds"
  shows "concat (map (\<lambda>td. report td e i) tds) = (if v = 1 then [PrintEarth e i] else [])"
proof -
  note P = partition_rows_closed[OF assms]
  have u: "[0 .. W - 1] = 0 # [1 .. W - 1]" using P(2) by (simp add: upto_rec1)
  have "report (part_thread b W p v j) e i = []" if "j \<in> set [1 .. W - 1]" for j
    using that by (simp add: report_def part_thread_def)
  then have "concat (map (\<lambda>td. report td e i) (map (part_thread b W p v) [1 .. W - 1])) = []"
    by (simp add: concat_eq_Nil_conv del: set_upto)
  then show ?thesis unfolding P(1) u by (simp add: report_def part_thread_def)
qed


lemma generation_partition_None:
  assumes "valid_bounds b" "partition_rows b W p v = Some tds"
    and "0 \<le> k" "k < num_rows b * num_cols b" "mark_of earth b k = None"
  shows "generation b tds earth = None"
proof -
  note V = partition_valid[OF assms(1,2)]
  from partition_cover[OF assms(1,2,3,4)] obtain td where
    td: "td \<in> set tds" "in_range b td k"
    by blast
  show ?thesis by (rule generation_None[OF assms(1) V td assms(5)])
qed

lemma partition_in_range_iff:
  assumes "valid_bounds b" "partition_rows b W p v = Some tds"
  shows "(\<exists>td \<in> set tds. in_range b td (int k)) \<longleftrightarrow> int k < num_rows b * num_cols b"
proof
  assume "\<exists>td \<in> set tds. in_range b td (int k)"
  then obtain td where td: "td \<in> set tds" "in_range b td (int k)" by blast
  have "valid_thread b td" using partition_valid[OF assms] td(1) by blast
  from in_range_bounds(2)[OF assms(1) this td(2)]
  show "int k < num_rows b * num_cols b" .
next
  assume "int k < num_rows b * num_cols b"
  then show "\<exists>td \<in> set tds. in_range b td (int k)"
    by (intro partition_cover[OF assms]) simp_all
qed

lemma generation_partition_Some:
  assumes "valid_bounds b" "num_rows b * num_cols b \<le> int (length earth)"
    and "partition_rows b W p v = Some tds"
    and "\<forall>k. 0 \<le> k \<and> k < num_rows b * num_cols b \<longrightarrow> mark_of earth b k \<noteq> None"
  shows "\<exists>earth'. generation b tds earth = Some earth' \<and> length earth' = length earth
           \<and> (\<forall>k < length earth. earth' ! k =
                 (if int k < num_rows b * num_cols b
                  then apply_mark (the (mark_of earth b (int k))) (earth ! k)
                  else earth ! k))"
proof -
  note V = partition_valid[OF assms(1,3)]
  note S = partition_sorted[OF assms(1,3)]
  have D: "\<forall>td \<in> set tds. \<forall>k. in_range b td k \<longrightarrow> mark_of earth b k \<noteq> None"
  proof (intro ballI allI impI)
    fix td k assume td: "td \<in> set tds" "in_range b td k"
    have vt: "valid_thread b td" using V td(1) by blast
    from in_range_bounds[OF assms(1) vt td(2)] assms(4)
    show "mark_of earth b k \<noteq> None" by blast
  qed
  from generation_Some[OF assms(1,2) V S D] obtain earth' where
    e: "generation b tds earth = Some earth'" "length earth' = length earth"
       "\<forall>k < length earth. earth' ! k =
               (if \<exists>td \<in> set tds. in_range b td (int k)
                then apply_mark (the (mark_of earth b (int k))) (earth ! k)
                else earth ! k)"
    by blast
  have "\<forall>k < length earth. earth' ! k =
               (if int k < num_rows b * num_cols b
                then apply_mark (the (mark_of earth b (int k))) (earth ! k)
                else earth ! k)"
    using e(3) unfolding partition_in_range_iff[OF assms(1,3)] .
  with e(1,2) show ?thesis by blast
qed

lemma generation_partition_eq:
  assumes "valid_bounds b" "num_rows b * num_cols b \<le> int (length earth)"
    and "partition_rows b W1 p1 v1 = Some tds1" "partition_rows b W2 p2 v2 = Some tds2"
  shows "generation b tds1 earth = generation b tds2 earth"
proof (cases "\<forall>k. 0 \<le> k \<and> k < num_rows b * num_cols b \<longrightarrow> mark_of earth b k \<noteq> None")
  case False
  then obtain k where k: "0 \<le> k" "k < num_rows b * num_cols b" "mark_of earth b k = None"
    by blast
  show ?thesis
    unfolding generation_partition_None[OF assms(1,3) k]
      generation_partition_None[OF assms(1,4) k] ..
next
  case True
  from generation_partition_Some[OF assms(1,2,3) True] obtain e1 where
    e1: "generation b tds1 earth = Some e1" "length e1 = length earth"
        "\<forall>k < length earth. e1 ! k =
                      (if int k < num_rows b * num_cols b
                       then apply_mark (the (mark_of earth b (int k))) (earth ! k)
                       else earth ! k)"
    by blast
  from generation_partition_Some[OF assms(1,2,4) True] obtain e2 where
    e2: "generation b tds2 earth = Some e2" "length e2 = length earth"
        "\<forall>k < length earth. e2 ! k =
                      (if int k < num_rows b * num_cols b
                       then apply_mark (the (mark_of earth b (int k))) (earth ! k)
                       else earth ! k)"
    by blast
  have "e1 = e2"
  proof (rule nth_equalityI)
    show "length e1 = length e2" using e1(2) e2(2) by simp
    fix k assume "k < length e1"
    then have "k < length earth" using e1(2) by simp
    then show "e1 ! k = e2 ! k" using e1(3) e2(3) by simp
  qed
  then show ?thesis using e1(1) e2(1) by simp
qed

lemma generation_partition_length:
  assumes "valid_bounds b" "num_rows b * num_cols b \<le> int (length earth)"
    and "partition_rows b W p v = Some tds" "generation b tds earth = Some earth'"
  shows "length earth' = length earth"
proof (cases "\<forall>k. 0 \<le> k \<and> k < num_rows b * num_cols b \<longrightarrow> mark_of earth b k \<noteq> None")
  case False
  then obtain k where k: "0 \<le> k" "k < num_rows b * num_cols b" "mark_of earth b k = None"
    by blast
  from generation_partition_None[OF assms(1,3) k] assms(4) show ?thesis by simp
next
  case True
  from generation_partition_Some[OF assms(1,2,3) True] assms(4) show ?thesis by auto
qed

section \<open>What a thread writes\<close>

lemma simulateLife_decide_length:
  assumes "valid_bounds b" "valid_thread b td" "simulateLife_decide earth b td = Some ch"
  shows "int (length ch) = num_rows b * num_cols b"
proof (cases "\<forall>k. in_range b td k \<longrightarrow> mark_of earth b k \<noteq> None")
  case True
  from simulateLife_decide_Some[OF assms(1,2) True] assms(3) show ?thesis by auto
next
  case False
  then obtain k where "in_range b td k" "mark_of earth b k = None" by blast
  from simulateLife_decide_None[OF assms(1,2) this] assms(3) show ?thesis by simp
qed

text \<open>
  Claim C7. For a thread with rows \<open>row_start .. row_end\<close> on a board of \<open>rows * cols\<close>
  cells: the second loop of \<^verbatim>\<open>simulateLife\<close>, with any \<^verbatim>\<open>change\<close> array of that size,
  returns, keeps the length of the board, and leaves every cell whose index is outside
  \<open>[row_start * cols, (row_end + 1) * cols)\<close> as it was; and so does the whole of
  \<^verbatim>\<open>simulateLife\<close> whenever it returns, its first loop writing only the thread's own
  \<^verbatim>\<open>change\<close>.
\<close>

theorem simulateLife_apply_frame:
  assumes "valid_bounds bounds" "valid_thread bounds td"
    and "num_rows bounds * num_cols bounds \<le> int (length earth)"
  shows "(\<forall>change. int (length change) = num_rows bounds * num_cols bounds \<longrightarrow>
            (\<exists>earth'. simulateLife_apply change bounds td earth = Some earth'
               \<and> length earth' = length earth
               \<and> (\<forall>k < length earth.
                     \<not> (row_start td * num_cols bounds \<le> int k
                        \<and> int k < (row_end td + 1) * num_cols bounds)
                     \<longrightarrow> earth' ! k = earth ! k)))
       \<and> (\<forall>earth'. simulateLife td bounds earth = Some earth' \<longrightarrow>
            length earth' = length earth
            \<and> (\<forall>k < length earth.
                  \<not> (row_start td * num_cols bounds \<le> int k
                     \<and> int k < (row_end td + 1) * num_cols bounds)
                  \<longrightarrow> earth' ! k = earth ! k))"
proof -
  have A: "\<exists>earth'. simulateLife_apply change bounds td earth = Some earth'
               \<and> length earth' = length earth
               \<and> (\<forall>k < length earth.
                     \<not> (row_start td * num_cols bounds \<le> int k
                        \<and> int k < (row_end td + 1) * num_cols bounds)
                     \<longrightarrow> earth' ! k = earth ! k)"
    if len: "int (length change) = num_rows bounds * num_cols bounds" for change
  proof -
    from simulateLife_apply_spec[OF assms(1,2) len assms(3)] obtain earth' where
      e: "simulateLife_apply change bounds td earth = Some earth'" "length earth' = length earth"
         "\<forall>k < length earth. earth' ! k =
                 (if in_range bounds td (int k) then apply_mark (change ! k) (earth ! k)
                  else earth ! k)"
      by blast
    have "\<forall>k < length earth.
                 \<not> (row_start td * num_cols bounds \<le> int k
                    \<and> int k < (row_end td + 1) * num_cols bounds)
                 \<longrightarrow> earth' ! k = earth ! k"
      using e(3) by (simp add: in_range_def)
    with e(1,2) show ?thesis by blast
  qed
  have B: "length earth' = length earth
            \<and> (\<forall>k < length earth.
                  \<not> (row_start td * num_cols bounds \<le> int k
                     \<and> int k < (row_end td + 1) * num_cols bounds)
                  \<longrightarrow> earth' ! k = earth ! k)"
    if s: "simulateLife td bounds earth = Some earth'" for earth'
  proof -
    from s obtain change where
      c: "simulateLife_decide earth bounds td = Some change"
         "simulateLife_apply change bounds td earth = Some earth'"
      by (auto simp: simulateLife_def split: Option.bind_splits)
    from A[OF simulateLife_decide_length[OF assms(1,2) c(1)]] c(2) show ?thesis by auto
  qed
  from A B show ?thesis by blast
qed


theorem simulateLife_apply_frame_witness:
  "valid_bounds \<lparr>num_rows = 5, num_cols = 5, iterations = 2, init_pairs = 3\<rparr>
   \<and> valid_thread \<lparr>num_rows = 5, num_cols = 5, iterations = 2, init_pairs = 3\<rparr>
        \<lparr>row_start = 2, row_end = 2, print_thread = 0, tid = 1, verbose = 0\<rparr>
   \<and> simulateLife_apply [0, 0, 0, 0, 0, 0, 0, 0, 0, 0, 0, - 1, 0, - 1, 0, 0, 0, 0, 0, 0, 0, 0, 0, 0, 0]
        \<lparr>num_rows = 5, num_cols = 5, iterations = 2, init_pairs = 3\<rparr>
        \<lparr>row_start = 2, row_end = 2, print_thread = 0, tid = 1, verbose = 0\<rparr>
        ''-----------@@@-----------''
      = Some ''------------@------------''
   \<and> simulateLife \<lparr>row_start = 2, row_end = 2, print_thread = 0, tid = 1, verbose = 0\<rparr>
        \<lparr>num_rows = 5, num_cols = 5, iterations = 2, init_pairs = 3\<rparr>
        ''-----------@@@-----------''
      = Some ''------------@------------''"
proof -
  have a: "valid_bounds \<lparr>num_rows = 5, num_cols = 5, iterations = 2, init_pairs = 3\<rparr>"
    by code_simp
  have b: "valid_thread \<lparr>num_rows = 5, num_cols = 5, iterations = 2, init_pairs = 3\<rparr>
        \<lparr>row_start = 2, row_end = 2, print_thread = 0, tid = 1, verbose = 0\<rparr>"
    by code_simp
  have l: "num_rows \<lparr>num_rows = 5, num_cols = 5, iterations = 2, init_pairs = 3\<rparr>
             * num_cols \<lparr>num_rows = 5, num_cols = 5, iterations = 2, init_pairs = 3\<rparr>
           \<le> int (length ''-----------@@@-----------'')"
    by simp
  have d: "simulateLife_apply [0, 0, 0, 0, 0, 0, 0, 0, 0, 0, 0, - 1, 0, - 1, 0, 0, 0, 0, 0, 0, 0, 0, 0, 0, 0]
        \<lparr>num_rows = 5, num_cols = 5, iterations = 2, init_pairs = 3\<rparr>
        \<lparr>row_start = 2, row_end = 2, print_thread = 0, tid = 1, verbose = 0\<rparr>
        ''-----------@@@-----------''
      = Some ''------------@------------''"
    by code_simp
  have e: "simulateLife \<lparr>row_start = 2, row_end = 2, print_thread = 0, tid = 1, verbose = 0\<rparr>
        \<lparr>num_rows = 5, num_cols = 5, iterations = 2, init_pairs = 3\<rparr>
        ''-----------@@@-----------''
      = Some ''------------@------------''"
    by code_simp
  note T = simulateLife_apply_frame [OF a b l]
  from T a b d e show ?thesis by blast
qed

section \<open>The thread count does not change the boards\<close>

lemma iterate_partition_eq:
  assumes "valid_bounds b"
    and "partition_rows b W1 p1 v = Some tds1" "partition_rows b W2 p2 v = Some tds2"
    and "num_rows b * num_cols b \<le> int (length earth)"
  shows "iterate b tds1 i earth out = iterate b tds2 i earth out"
  using assms(4)
proof (induction "nat (iterations b - i)" arbitrary: i earth out)
  case 0
  then have "\<not> i < iterations b" by simp
  then show ?case by (simp add: iterate.simps)
next
  case (Suc n)
  then have lt: "i < iterations b" by linarith
  have g: "generation b tds1 earth = generation b tds2 earth"
    by (rule generation_partition_eq[OF assms(1) Suc.prems assms(2,3)])
  have r: "concat (map (\<lambda>td. report td e i) tds1) = concat (map (\<lambda>td. report td e i) tds2)" for e
    unfolding partition_report[OF assms(1,2)] partition_report[OF assms(1,3)] ..
  show ?case
  proof (cases "generation b tds1 earth")
    case None
    moreover from None g have "generation b tds2 earth = None" by simp
    ultimately have "iterate b tds1 i earth out = None" "iterate b tds2 i earth out = None"
      using lt by (simp_all add: iterate.simps)
    then show ?thesis by simp
  next
    case (Some e)
    have l: "length e = length earth"
      by (rule generation_partition_length[OF assms(1) Suc.prems assms(2) Some])
    have IH: "iterate b tds1 (i + 1) e out' = iterate b tds2 (i + 1) e out'" for out'
      using Suc.hyps(2) Suc.prems l by (intro Suc.hyps(1)) auto
    have g2: "generation b tds2 earth = Some e" using g Some by simp
    have s1: "iterate b tds1 i earth out
                = iterate b tds1 (i + 1) e (out @ concat (map (\<lambda>td. report td e i) tds1))"
      using lt Some by (subst iterate.simps) simp
    have s2: "iterate b tds2 i earth out
                = iterate b tds2 (i + 1) e (out @ concat (map (\<lambda>td. report td e i) tds2))"
      using lt g2 by (subst iterate.simps) simp
    show ?thesis unfolding s1 s2 r by (rule IH)
  qed
qed


lemma partition_rows_iterations:
  assumes "valid_bounds b" "partition_rows b W p v = Some tds"
  shows "partition_rows (b\<lparr>iterations := g\<rparr>) W p v = Some tds"
proof -
  note P = partition_rows_closed[OF assms]
  have v': "valid_bounds (b\<lparr>iterations := g\<rparr>)" using assms(1) by (simp add: valid_bounds_def)
  have "partition_rows (b\<lparr>iterations := g\<rparr>) W p v
          = Some (init_thread_data (b\<lparr>iterations := g\<rparr>) W p v 0 [])"
    using P(2,3) by (simp add: partition_rows_def)
  from partition_rows_closed(1)[OF v' this] have
    "init_thread_data (b\<lparr>iterations := g\<rparr>) W p v 0 [] = map (part_thread b W p v) [0 .. W - 1]"
    by (simp add: part_thread_def)
  then show ?thesis using P by (simp add: partition_rows_def)
qed

text \<open>
  Claim C4. For one header and one board, and two thread counts that \<^verbatim>\<open>main\<close> accepts
  (from 1 to \<open>num_rows\<close>), the loop of \<^verbatim>\<open>threadFunc\<close> gives the same result: the same
  final board and the same sequence of \<^verbatim>\<open>printEarth\<close> calls (the board after each
  generation, when verbose), or undefined behaviour in both. This holds for every number
  of iterations \<open>g\<close>, that is after every generation, and for a single generation. With
  the second count 1 it is the single-threaded result.
\<close>

theorem thread_count_irrelevant:
  assumes "valid_bounds bounds"
    and "partition_rows bounds W1 p1 vflag = Some tds1"
    and "partition_rows bounds W2 p2 vflag = Some tds2"
    and "num_rows bounds * num_cols bounds \<le> int (length earth)"
  shows "iterate bounds tds1 0 earth [] = iterate bounds tds2 0 earth []
       \<and> (\<forall>g. iterate (bounds\<lparr>iterations := g\<rparr>) tds1 0 earth []
                = iterate (bounds\<lparr>iterations := g\<rparr>) tds2 0 earth [])
       \<and> generation bounds tds1 earth = generation bounds tds2 earth"
proof -
  have a: "iterate bounds tds1 0 earth [] = iterate bounds tds2 0 earth []"
    by (rule iterate_partition_eq[OF assms])
  have b: "iterate (bounds\<lparr>iterations := g\<rparr>) tds1 0 earth []
             = iterate (bounds\<lparr>iterations := g\<rparr>) tds2 0 earth []" for g
  proof -
    have v': "valid_bounds (bounds\<lparr>iterations := g\<rparr>)"
      using assms(1) by (simp add: valid_bounds_def)
    have l: "num_rows (bounds\<lparr>iterations := g\<rparr>) * num_cols (bounds\<lparr>iterations := g\<rparr>)
               \<le> int (length earth)"
      using assms(4) by simp
    show ?thesis
      by (rule iterate_partition_eq[OF v' partition_rows_iterations[OF assms(1,2)]
            partition_rows_iterations[OF assms(1,3)] l])
  qed
  have c: "generation bounds tds1 earth = generation bounds tds2 earth"
    by (rule generation_partition_eq[OF assms(1,4,2,3)])
  from a b c show ?thesis by blast
qed

theorem thread_count_irrelevant_witness:
  "valid_bounds \<lparr>num_rows = 5, num_cols = 5, iterations = 2, init_pairs = 3\<rparr>
   \<and> partition_rows \<lparr>num_rows = 5, num_cols = 5, iterations = 2, init_pairs = 3\<rparr> 3 0 1
      = Some [\<lparr>row_start = 0, row_end = 1, print_thread = 0, tid = 0, verbose = 1\<rparr>,
              \<lparr>row_start = 2, row_end = 3, print_thread = 0, tid = 1, verbose = 0\<rparr>,
              \<lparr>row_start = 4, row_end = 4, print_thread = 0, tid = 2, verbose = 0\<rparr>]
   \<and> partition_rows \<lparr>num_rows = 5, num_cols = 5, iterations = 2, init_pairs = 3\<rparr> 1 0 1
      = Some [\<lparr>row_start = 0, row_end = 4, print_thread = 0, tid = 0, verbose = 1\<rparr>]
   \<and> iterate \<lparr>num_rows = 5, num_cols = 5, iterations = 2, init_pairs = 3\<rparr>
        [\<lparr>row_start = 0, row_end = 1, print_thread = 0, tid = 0, verbose = 1\<rparr>,
         \<lparr>row_start = 2, row_end = 3, print_thread = 0, tid = 1, verbose = 0\<rparr>,
         \<lparr>row_start = 4, row_end = 4, print_thread = 0, tid = 2, verbose = 0\<rparr>]
        0 ''-----------@@@-----------'' []
      = Some (''-----------@@@-----------'',
              [PrintEarth ''-------@----@----@-------'' 0, PrintEarth ''-----------@@@-----------'' 1])
   \<and> iterate \<lparr>num_rows = 5, num_cols = 5, iterations = 2, init_pairs = 3\<rparr>
        [\<lparr>row_start = 0, row_end = 4, print_thread = 0, tid = 0, verbose = 1\<rparr>]
        0 ''-----------@@@-----------'' []
      = Some (''-----------@@@-----------'',
              [PrintEarth ''-------@----@----@-------'' 0, PrintEarth ''-----------@@@-----------'' 1])"
proof -
  have a: "valid_bounds \<lparr>num_rows = 5, num_cols = 5, iterations = 2, init_pairs = 3\<rparr>"
    by code_simp
  have p3: "partition_rows \<lparr>num_rows = 5, num_cols = 5, iterations = 2, init_pairs = 3\<rparr> 3 0 1
      = Some [\<lparr>row_start = 0, row_end = 1, print_thread = 0, tid = 0, verbose = 1\<rparr>,
              \<lparr>row_start = 2, row_end = 3, print_thread = 0, tid = 1, verbose = 0\<rparr>,
              \<lparr>row_start = 4, row_end = 4, print_thread = 0, tid = 2, verbose = 0\<rparr>]"
    by code_simp
  have p1: "partition_rows \<lparr>num_rows = 5, num_cols = 5, iterations = 2, init_pairs = 3\<rparr> 1 0 1
      = Some [\<lparr>row_start = 0, row_end = 4, print_thread = 0, tid = 0, verbose = 1\<rparr>]"
    by code_simp
  have i1: "iterate \<lparr>num_rows = 5, num_cols = 5, iterations = 2, init_pairs = 3\<rparr>
        [\<lparr>row_start = 0, row_end = 4, print_thread = 0, tid = 0, verbose = 1\<rparr>]
        0 ''-----------@@@-----------'' []
      = Some (''-----------@@@-----------'',
              [PrintEarth ''-------@----@----@-------'' 0, PrintEarth ''-----------@@@-----------'' 1])"
    by code_simp
  show ?thesis
    using thread_count_irrelevant [OF a p3 p1, of "''-----------@@@-----------''"] a p3 p1 i1
    by simp
qed

section \<open>The transition rules\<close>

lemma mark_of_safe:
  assumes "safe_bounds b" "0 \<le> k" "k < num_rows b * num_cols b"
    and "num_rows b * num_cols b \<le> int (length earth)"
  shows "mark_of earth b k \<noteq> None"
  using assms neighbors_safe[OF assms] by (simp add: mark_of_def rd_def)

lemma safe_bounds_valid: "safe_bounds b \<Longrightarrow> valid_bounds b"
  by (simp add: safe_bounds_def valid_bounds_def)

text \<open>
  Claim C3. On the partition of \<^verbatim>\<open>main\<close>, a generation returns a board whenever the
  arithmetic of \<^verbatim>\<open>neighbors\<close> is exact; and whenever it returns a board \<open>earth'\<close>, for
  every thread and every live or dead cell \<open>k\<close> in the rows of that thread, with \<open>n\<close> the
  count that \<^verbatim>\<open>neighbors\<close> returns on the board before the generation: a live cell with
  \<open>n \<le> 1\<close> or \<open>n \<ge> 4\<close> is dead in \<open>earth'\<close>, a live cell with \<open>n = 2\<close> or \<open>n = 3\<close> is alive, a
  dead cell with \<open>n = 3\<close> is alive, and any other dead cell is dead.
\<close>

theorem generation_transition_rules:
  assumes "valid_bounds bounds" "partition_rows bounds W p_flag vflag = Some tds"
    and "num_rows bounds * num_cols bounds \<le> int (length earth)"
  shows "(safe_bounds bounds \<longrightarrow> (\<exists>earth'. generation bounds tds earth = Some earth'))
       \<and> (\<forall>earth' td k. generation bounds tds earth = Some earth' \<and> td \<in> set tds
             \<and> row_start td * num_cols bounds \<le> int k
             \<and> int k < (row_end td + 1) * num_cols bounds
             \<and> (earth ! k = CHR ''@'' \<or> earth ! k = CHR ''-'') \<longrightarrow>
            (\<exists>n. neighbors earth (int k) bounds = Some n
               \<and> (earth ! k = CHR ''@'' \<and> (n \<le> 1 \<or> 4 \<le> n) \<longrightarrow> earth' ! k = CHR ''-'')
               \<and> (earth ! k = CHR ''@'' \<and> (n = 2 \<or> n = 3) \<longrightarrow> earth' ! k = CHR ''@'')
               \<and> (earth ! k = CHR ''-'' \<and> n = 3 \<longrightarrow> earth' ! k = CHR ''@'')
               \<and> (earth ! k = CHR ''-'' \<and> n \<noteq> 3 \<longrightarrow> earth' ! k = CHR ''-'')))"
proof (intro conjI allI impI)
  assume s: "safe_bounds bounds"
  have "\<forall>k. 0 \<le> k \<and> k < num_rows bounds * num_cols bounds \<longrightarrow> mark_of earth bounds k \<noteq> None"
    using mark_of_safe[OF s _ _ assms(3)] by blast
  from generation_partition_Some[OF assms(1,3,2) this]
  show "\<exists>earth'. generation bounds tds earth = Some earth'" by blast
next
  fix earth' td k
  assume h: "generation bounds tds earth = Some earth' \<and> td \<in> set tds
             \<and> row_start td * num_cols bounds \<le> int k
             \<and> int k < (row_end td + 1) * num_cols bounds
             \<and> (earth ! k = CHR ''@'' \<or> earth ! k = CHR ''-'')"
  then have g: "generation bounds tds earth = Some earth'" and td: "td \<in> set tds"
    and ir: "in_range bounds td (int k)" and c: "earth ! k = CHR ''@'' \<or> earth ! k = CHR ''-''"
    by (simp_all add: in_range_def)
  have vt: "valid_thread bounds td" using partition_valid[OF assms(1,2)] td by blast
  have kN: "int k < num_rows bounds * num_cols bounds"
    by (rule in_range_bounds(2)[OF assms(1) vt ir])
  then have kl: "k < length earth" using assms(3) by linarith
  have all: "\<forall>j. 0 \<le> j \<and> j < num_rows bounds * num_cols bounds \<longrightarrow> mark_of earth bounds j \<noteq> None"
  proof (rule ccontr)
    assume "\<not> ?thesis"
    then obtain j where "0 \<le> j" "j < num_rows bounds * num_cols bounds" "mark_of earth bounds j = None"
      by blast
    from generation_partition_None[OF assms(1,2) this] g show False by simp
  qed
  from generation_partition_Some[OF assms(1,3,2) all] g kl kN
  have e': "earth' ! k = apply_mark (the (mark_of earth bounds (int k))) (earth ! k)" by auto
  from all kN obtain m where m: "mark_of earth bounds (int k) = Some m" by fastforce
  have r: "rd earth (int k) = Some (earth ! k)" using kl by (simp add: rd_def)
  from m c r obtain n where n: "neighbors earth (int k) bounds = Some n"
    by (auto simp: mark_of_def split: if_splits Option.bind_splits)
  have mv: "m = (if earth ! k = CHR ''@'' then (if n \<le> 1 \<or> 4 \<le> n then - 1 else 0)
                 else (if n = 3 then - 2 else 0))"
    using m c r n by (auto simp: mark_of_def split: if_splits)
  have "(earth ! k = CHR ''@'' \<and> (n \<le> 1 \<or> 4 \<le> n) \<longrightarrow> earth' ! k = CHR ''-'')
      \<and> (earth ! k = CHR ''@'' \<and> (n = 2 \<or> n = 3) \<longrightarrow> earth' ! k = CHR ''@'')
      \<and> (earth ! k = CHR ''-'' \<and> n = 3 \<longrightarrow> earth' ! k = CHR ''@'')
      \<and> (earth ! k = CHR ''-'' \<and> n \<noteq> 3 \<longrightarrow> earth' ! k = CHR ''-'')"
    using c by (auto simp: e' m mv apply_mark_def)
  with n show "\<exists>n. neighbors earth (int k) bounds = Some n
               \<and> (earth ! k = CHR ''@'' \<and> (n \<le> 1 \<or> 4 \<le> n) \<longrightarrow> earth' ! k = CHR ''-'')
               \<and> (earth ! k = CHR ''@'' \<and> (n = 2 \<or> n = 3) \<longrightarrow> earth' ! k = CHR ''@'')
               \<and> (earth ! k = CHR ''-'' \<and> n = 3 \<longrightarrow> earth' ! k = CHR ''@'')
               \<and> (earth ! k = CHR ''-'' \<and> n \<noteq> 3 \<longrightarrow> earth' ! k = CHR ''-'')"
    by blast
qed

theorem generation_transition_rules_witness:
  "valid_bounds \<lparr>num_rows = 5, num_cols = 5, iterations = 2, init_pairs = 3\<rparr>
   \<and> safe_bounds \<lparr>num_rows = 5, num_cols = 5, iterations = 2, init_pairs = 3\<rparr>
   \<and> partition_rows \<lparr>num_rows = 5, num_cols = 5, iterations = 2, init_pairs = 3\<rparr> 1 0 1
      = Some [\<lparr>row_start = 0, row_end = 4, print_thread = 0, tid = 0, verbose = 1\<rparr>]
   \<and> generation \<lparr>num_rows = 5, num_cols = 5, iterations = 2, init_pairs = 3\<rparr>
        [\<lparr>row_start = 0, row_end = 4, print_thread = 0, tid = 0, verbose = 1\<rparr>]
        ''-----------@@@-----------'' = Some ''-------@----@----@-------''
   \<and> neighbors ''-----------@@@-----------'' (int 11)
        \<lparr>num_rows = 5, num_cols = 5, iterations = 2, init_pairs = 3\<rparr> = Some 1
   \<and> ''-----------@@@-----------'' ! 11 = CHR ''@''
   \<and> ''-------@----@----@-------'' ! 11 = CHR ''-''"
proof -
  have a: "valid_bounds \<lparr>num_rows = 5, num_cols = 5, iterations = 2, init_pairs = 3\<rparr>"
    by code_simp
  have s: "safe_bounds \<lparr>num_rows = 5, num_cols = 5, iterations = 2, init_pairs = 3\<rparr>"
    by code_simp
  have p1: "partition_rows \<lparr>num_rows = 5, num_cols = 5, iterations = 2, init_pairs = 3\<rparr> 1 0 1
      = Some [\<lparr>row_start = 0, row_end = 4, print_thread = 0, tid = 0, verbose = 1\<rparr>]"
    by code_simp
  have g: "generation \<lparr>num_rows = 5, num_cols = 5, iterations = 2, init_pairs = 3\<rparr>
        [\<lparr>row_start = 0, row_end = 4, print_thread = 0, tid = 0, verbose = 1\<rparr>]
        ''-----------@@@-----------'' = Some ''-------@----@----@-------''"
    by code_simp
  have n: "neighbors ''-----------@@@-----------'' (int 11)
        \<lparr>num_rows = 5, num_cols = 5, iterations = 2, init_pairs = 3\<rparr> = Some 1"
    by code_simp
  have c0: "''-----------@@@-----------'' ! 11 = CHR ''@''" by code_simp
  have c1: "''-------@----@----@-------'' ! 11 = CHR ''-''" by code_simp
  have l: "num_rows \<lparr>num_rows = 5, num_cols = 5, iterations = 2, init_pairs = 3\<rparr>
             * num_cols \<lparr>num_rows = 5, num_cols = 5, iterations = 2, init_pairs = 3\<rparr>
           \<le> int (length ''-----------@@@-----------'')"
    by simp
  have "\<exists>m. neighbors ''-----------@@@-----------'' (int 11)
            \<lparr>num_rows = 5, num_cols = 5, iterations = 2, init_pairs = 3\<rparr> = Some m
       \<and> (''-----------@@@-----------'' ! 11 = CHR ''@'' \<and> (m \<le> 1 \<or> 4 \<le> m)
            \<longrightarrow> ''-------@----@----@-------'' ! 11 = CHR ''-'')
       \<and> (''-----------@@@-----------'' ! 11 = CHR ''@'' \<and> (m = 2 \<or> m = 3)
            \<longrightarrow> ''-------@----@----@-------'' ! 11 = CHR ''@'')
       \<and> (''-----------@@@-----------'' ! 11 = CHR ''-'' \<and> m = 3
            \<longrightarrow> ''-------@----@----@-------'' ! 11 = CHR ''@'')
       \<and> (''-----------@@@-----------'' ! 11 = CHR ''-'' \<and> m \<noteq> 3
            \<longrightarrow> ''-------@----@----@-------'' ! 11 = CHR ''-'')"
    by (rule generation_transition_rules [OF a p1 l, THEN conjunct2, rule_format,
          of "''-------@----@----@-------''"
             "\<lparr>row_start = 0, row_end = 4, print_thread = 0, tid = 0, verbose = 1\<rparr>" 11])
       (simp add: g c0)
  then show ?thesis using a s p1 g n c0 c1 by simp
qed

section \<open>The cells behind the board\<close>

lemma neighbors_sum:
  assumes "safe_bounds b" "0 \<le> index" "index < num_rows b * num_cols b"
    and "num_rows b * num_cols b \<le> int (length earth)"
  shows "neighbors earth index b
           = Some (\<Sum>i\<leftarrow>neighbor_indices index b. if earth ! nat i = CHR ''@'' then 1 else 0)"
proof -
  have nz: "num_cols b \<noteq> 0" "num_rows b \<noteq> 0"
    using assms(1) by (auto simp: safe_bounds_def)
  have inb: "\<forall>i \<in> set (neighbor_indices index b). 0 \<le> i \<and> i < int (length earth)"
    using neighbor_indices_in_grid[OF assms(1-3)] assms(4) by fastforce
  have len: "length (neighbor_indices index b) = 8"
    by (simp add: neighbor_indices_def Let_def)
  have "count_live earth (neighbor_indices index b) 0
          = Some (0 + (\<Sum>i\<leftarrow>neighbor_indices index b. if earth ! nat i = CHR ''@'' then 1 else 0))"
    using inb len by (intro count_live_Some) (auto simp: INT_MAX_def)
  then show ?thesis using nz by (simp add: neighbors_def)
qed

lemma neighbors_append:
  assumes "safe_bounds b" "0 \<le> index" "index < num_rows b * num_cols b"
    and "num_rows b * num_cols b \<le> int (length earth)"
  shows "neighbors (earth @ rest) index b = neighbors earth index b"
proof -
  have l: "num_rows b * num_cols b \<le> int (length (earth @ rest))" using assms(4) by simp
  have "(earth @ rest) ! nat i = earth ! nat i" if "i \<in> set (neighbor_indices index b)" for i
  proof -
    have "nat i < length earth"
      using neighbor_indices_in_grid[OF assms(1-3) that] assms(4) by linarith
    then show ?thesis by (simp add: nth_append)
  qed
  then have "(\<Sum>i\<leftarrow>neighbor_indices index b. if (earth @ rest) ! nat i = CHR ''@'' then 1 else 0)
           = (\<Sum>i\<leftarrow>neighbor_indices index b. if earth ! nat i = CHR ''@'' then (1::int) else 0)"
    by (intro arg_cong[where f = sum_list] map_cong) auto
  then show ?thesis
    unfolding neighbors_sum[OF assms] neighbors_sum[OF assms(1-3) l] by simp
qed

lemma mark_of_append:
  assumes "safe_bounds b" "0 \<le> k" "k < num_rows b * num_cols b"
    and "num_rows b * num_cols b \<le> int (length earth)"
  shows "mark_of (earth @ rest) b k = mark_of earth b k"
proof -
  have n: "nat k < length earth" and i: "k < int (length earth)" using assms(2-4) by linarith+
  have r: "rd (earth @ rest) k = rd earth k" using assms(2) n i by (simp add: rd_def nth_append)
  show ?thesis unfolding mark_of_def r neighbors_append[OF assms] ..
qed

lemma generation_append:
  assumes "safe_bounds b" "partition_rows b W p v = Some tds"
    and "int (length earth) = num_rows b * num_cols b"
    and "generation b tds earth = Some earth'"
  shows "generation b tds (earth @ rest) = Some (earth' @ rest)"
proof -
  note V = safe_bounds_valid[OF assms(1)]
  have l1: "num_rows b * num_cols b \<le> int (length earth)" using assms(3) by simp
  have l2: "num_rows b * num_cols b \<le> int (length (earth @ rest))" using assms(3) by simp
  have d1: "\<forall>k. 0 \<le> k \<and> k < num_rows b * num_cols b \<longrightarrow> mark_of earth b k \<noteq> None"
    using mark_of_safe[OF assms(1) _ _ l1] by blast
  have d2: "\<forall>k. 0 \<le> k \<and> k < num_rows b * num_cols b \<longrightarrow> mark_of (earth @ rest) b k \<noteq> None"
    using mark_of_safe[OF assms(1) _ _ l2] by blast
  from generation_partition_Some[OF V l1 assms(2) d1] assms(4) have
    e1: "length earth' = length earth"
        "\<forall>k < length earth. earth' ! k =
                 (if int k < num_rows b * num_cols b
                  then apply_mark (the (mark_of earth b (int k))) (earth ! k)
                  else earth ! k)"
    by auto
  from generation_partition_Some[OF V l2 assms(2) d2] obtain e2 where
    e2: "generation b tds (earth @ rest) = Some e2" "length e2 = length (earth @ rest)"
        "\<forall>k < length (earth @ rest). e2 ! k =
                 (if int k < num_rows b * num_cols b
                  then apply_mark (the (mark_of (earth @ rest) b (int k))) ((earth @ rest) ! k)
                  else (earth @ rest) ! k)"
    by blast
  have "e2 = earth' @ rest"
  proof (rule nth_equalityI)
    show "length e2 = length (earth' @ rest)" using e2(2) e1(1) by simp
    fix k assume "k < length e2"
    then have k: "k < length (earth @ rest)" using e2(2) by simp
    show "e2 ! k = (earth' @ rest) ! k"
    proof (cases "k < length earth")
      case True
      then have kN: "int k < num_rows b * num_cols b" using assms(3) by linarith
      have "mark_of (earth @ rest) b (int k) = mark_of earth b (int k)"
        using kN by (intro mark_of_append[OF assms(1) _ _ l1]) auto
      then show ?thesis using e2(3) e1 k True kN by (simp add: nth_append)
    next
      case False
      then have "\<not> int k < num_rows b * num_cols b" using assms(3) by linarith
      then show ?thesis using e2(3) e1(1) k False by (simp add: nth_append)
    qed
  qed
  then show ?thesis using e2(1) by simp
qed

lemma set_alive_append:
  "set_alive b pairs earth = Some earth' \<Longrightarrow> set_alive b pairs (earth @ rest) = Some (earth' @ rest)"
proof (induction pairs arbitrary: earth)
  case Nil
  then show ?case by simp
next
  case (Cons p pairs)
  obtain col row where p: "p = (col, row)" by (cases p)
  from Cons.prems p obtain e1 where
    e1: "wr earth (cell_index b col row) CHR ''@'' = Some e1" "set_alive b pairs e1 = Some earth'"
    by (auto split: Option.bind_splits)
  from e1(1) have "wr (earth @ rest) (cell_index b col row) CHR ''@'' = Some (e1 @ rest)"
    by (auto simp: wr_def list_update_append split: if_splits)
  then show ?case using Cons.IH[OF e1(2)] p by simp
qed

lemma live_cells_append:
  assumes "valid_bounds b" "int (length earth) = num_rows b * num_cols b"
  shows "live_cells b (earth @ rest) = live_cells b earth"
proof -
  have r: "rd (earth @ rest) (num_cols b * row + col) = rd earth (num_cols b * row + col)"
    if "row \<in> set [0 .. num_rows b - 1]" "col \<in> set [0 .. num_cols b - 1]" for row col
  proof -
    have rc: "0 \<le> row" "row < num_rows b" "0 \<le> col" "col < num_cols b" using that by auto
    from cell_bound[OF rc] have "0 \<le> num_cols b * row + col"
      "num_cols b * row + col < int (length earth)"
      using assms(2) by (simp_all add: mult.commute)
    moreover from this have "nat (num_cols b * row + col) < length earth" by linarith
    ultimately show ?thesis by (simp add: rd_def nth_append)
  qed
  show ?thesis
    unfolding live_cells_def
    by (intro arg_cong[where f = set] arg_cong[where f = concat] map_cong refl) (simp add: r)
qed

lemma partition_no_diagnostic:
  assumes "valid_bounds b" "partition_rows b W 0 v = Some tds"
  shows "concat (map partition_diagnostic tds) = []"
  unfolding partition_rows_closed(1)[OF assms]
  by (simp add: partition_diagnostic_def part_thread_def)

lemma b5_valid: "safe_bounds \<lparr>num_rows = 5, num_cols = 5, iterations = 2, init_pairs = 3\<rparr>"
  by code_simp

section \<open>The blinker\<close>

text \<open>
  Claim C5. On the 5 by 5 board with the \<open>(col, row)\<close> pairs \<open>(1, 2), (2, 2), (3, 2)\<close> and
  2 iterations, with any thread count from 1 to 5, in verbose mode, whatever the allocated
  block holds behind the 25 cells: \<^verbatim>\<open>printEarth\<close> is called with the board whose live
  cells are \<open>(2, 1), (2, 2), (2, 3)\<close> after the first generation, and with the board whose
  live cells are \<open>(1, 2), (2, 2), (3, 2)\<close> after the second, which is the final board.
\<close>

theorem blinker_two_generations:
  assumes "1 \<le> W" "W \<le> 5"
  shows "gol_main \<lparr>num_rows = 5, num_cols = 5, iterations = 2, init_pairs = 3\<rparr>
           [(1, 2), (2, 2), (3, 2)] rest W 0 1
         = Finished (''-----------@@@-----------'' @ rest)
             [PrintEarth (''-------@----@----@-------'' @ rest) 0,
              PrintEarth (''-----------@@@-----------'' @ rest) 1]
       \<and> live_cells \<lparr>num_rows = 5, num_cols = 5, iterations = 2, init_pairs = 3\<rparr>
           (''-------@----@----@-------'' @ rest) = {(2, 1), (2, 2), (2, 3)}
       \<and> live_cells \<lparr>num_rows = 5, num_cols = 5, iterations = 2, init_pairs = 3\<rparr>
           (''-----------@@@-----------'' @ rest) = {(1, 2), (2, 2), (3, 2)}"
proof -
  define b where "b = \<lparr>num_rows = 5, num_cols = 5, iterations = 2, init_pairs = 3\<rparr>"
  define g0 where "g0 = ''-----------@@@-----------''"
  define g1 where "g1 = ''-------@----@----@-------''"
  define t1 where "t1 = \<lparr>row_start = 0, row_end = 4, print_thread = 0, tid = 0, verbose = 1\<rparr>"
  have s: "safe_bounds b" unfolding b_def by (rule b5_valid)
  note v = safe_bounds_valid[OF s]
  have N: "num_rows b * num_cols b = 25" "iterations b = 2" by (simp_all add: b_def)
  have l0: "int (length g0) = num_rows b * num_cols b" by (simp add: g0_def N)
  have l1: "int (length g1) = num_rows b * num_cols b" by (simp add: g1_def N)
  have i0: "set_alive b [(1, 2), (2, 2), (3, 2)] (replicate 25 CHR ''-'') = Some g0"
    unfolding b_def g0_def by code_simp
  have i: "initEarth b [(1, 2), (2, 2), (3, 2)] rest = Some (g0 @ rest)"
    using set_alive_append[OF i0, of rest] by (simp add: initEarth_def N int32_def)
  obtain tds where tds: "partition_rows b W 0 1 = Some tds"
    using assms by (simp add: partition_rows_def b_def)
  have p1: "partition_rows b 1 0 1 = Some [t1]"
    unfolding b_def t1_def by code_simp
  have ga: "generation b [t1] g0 = Some g1"
    unfolding b_def t1_def g0_def g1_def by code_simp
  have gb: "generation b [t1] g1 = Some g0"
    unfolding b_def t1_def g0_def g1_def by code_simp
  note ga' = generation_append[OF s p1 l0 ga, of rest]
  note gb' = generation_append[OF s p1 l1 gb, of rest]
  have rp: "report t1 e j = [PrintEarth e j]" for e j by (simp add: report_def t1_def)
  have "iterate b [t1] 2 (g0 @ rest) [PrintEarth (g1 @ rest) 0, PrintEarth (g0 @ rest) 1]
          = Some (g0 @ rest, [PrintEarth (g1 @ rest) 0, PrintEarth (g0 @ rest) 1])"
    by (subst iterate.simps) (simp add: N)
  then have "iterate b [t1] 1 (g1 @ rest) [PrintEarth (g1 @ rest) 0]
          = Some (g0 @ rest, [PrintEarth (g1 @ rest) 0, PrintEarth (g0 @ rest) 1])"
    by (subst iterate.simps) (simp add: N gb' rp)
  then have it1: "iterate b [t1] 0 (g0 @ rest) []
          = Some (g0 @ rest, [PrintEarth (g1 @ rest) 0, PrintEarth (g0 @ rest) 1])"
    by (subst iterate.simps) (simp add: N ga' rp)
  have le: "num_rows b * num_cols b \<le> int (length (g0 @ rest))" using l0 by simp
  have it: "iterate b tds 0 (g0 @ rest) [] = iterate b [t1] 0 (g0 @ rest) []"
    by (rule iterate_partition_eq[OF v tds p1 le])
  have tf: "threadFunc b tds (g0 @ rest)
          = Some (g0 @ rest, [PrintEarth (g1 @ rest) 0, PrintEarth (g0 @ rest) 1])"
    by (simp add: threadFunc_def it it1 partition_no_diagnostic[OF v tds])
  have m: "gol_main b [(1, 2), (2, 2), (3, 2)] rest W 0 1
         = Finished (g0 @ rest) [PrintEarth (g1 @ rest) 0, PrintEarth (g0 @ rest) 1]"
    by (simp add: gol_main_def i tds tf)
  have c1: "live_cells b g1 = {(2, 1), (2, 2), (2, 3)}"
    unfolding b_def g1_def by code_simp
  have c0: "live_cells b g0 = {(1, 2), (2, 2), (3, 2)}"
    unfolding b_def g0_def by code_simp
  show ?thesis
    using m c0 c1 live_cells_append[OF v l0, of rest] live_cells_append[OF v l1, of rest]
    unfolding b_def g0_def g1_def by simp
qed

theorem blinker_two_generations_witness:
  "(1::int) \<le> 4 \<and> (4::int) \<le> 5
   \<and> gol_main \<lparr>num_rows = 5, num_cols = 5, iterations = 2, init_pairs = 3\<rparr>
        [(1, 2), (2, 2), (3, 2)] (replicate 75 CHR ''x'') 4 0 1
      = Finished (''-----------@@@-----------'' @ replicate 75 CHR ''x'')
          [PrintEarth (''-------@----@----@-------'' @ replicate 75 CHR ''x'') 0,
           PrintEarth (''-----------@@@-----------'' @ replicate 75 CHR ''x'') 1]"
  using blinker_two_generations [of 4 "replicate 75 CHR ''x''"] by simp

end
